theory Spec2Isabelle
  imports Complex_Main
begin

section \<open>The contour (skyline)\<close>

text \<open>
  A \<open>ContourPoint\<close> carries an \<open>x\<close> and a \<open>height\<close>; the contour is the singly linked list
  that starts at \<open>contourHead\<close>. The list of points, in link order, is the model: the empty
  list is the null head. C++ \<open>int\<close> is modelled by \<open>int\<close>: signed overflow is undefined
  behaviour in the source, so the model speaks about runs that stay in range.
\<close>

type_synonym ContourPoint = "int \<times> int"

type_synonym Contour = "ContourPoint list"

text \<open>
  The third loop of \<open>updateContour\<close>: \<open>kept\<close> is the part of the list that ends in
  \<open>prev\<close>, the second list starts at \<open>curr\<close>. A point left of \<open>right\<close> is unlinked when
  its height is at most \<open>topY\<close> (the source's \<open>top\<close>) and kept (becoming \<open>prev\<close>) otherwise.
\<close>

fun removeCovered ::
  "int \<Rightarrow> int \<Rightarrow> ContourPoint list \<Rightarrow> ContourPoint list \<Rightarrow> ContourPoint list \<times> ContourPoint list"
where
  "removeCovered right topY kept [] = (kept, [])"
| "removeCovered right topY kept (p # ps) =
     (if fst p < right then
        (if snd p \<le> topY then removeCovered right topY kept ps
         else removeCovered right topY (kept @ [p]) ps)
      else (kept, p # ps))"

text \<open>\<open>prev ? prev->height : 0\<close>, where \<open>prev\<close> is the last point of \<open>kept\<close>.\<close>

definition heightOfPrev :: "ContourPoint list \<Rightarrow> int" where
  "heightOfPrev kept = (if kept = [] then 0 else snd (last kept))"

text \<open>
  The second phase: after the points left of \<open>x\<close> have been skipped (\<open>pre\<close>, ending in
  \<open>prev\<close>), a point at \<open>x\<close> is inserted or the one found there is raised.
\<close>

definition leftEdge ::
  "int \<Rightarrow> int \<Rightarrow> ContourPoint list \<Rightarrow> ContourPoint list \<Rightarrow> ContourPoint list \<times> ContourPoint list"
where
  "leftEdge x topY pre cur =
     (case cur of
        [] \<Rightarrow> (pre @ [(x, topY)], [])
      | p # ps \<Rightarrow>
          if fst p > x then (pre @ [(x, topY)], p # ps)
          else if fst p = x then (pre @ [(fst p, max (snd p) topY)], ps)
          else (pre, p # ps))"

text \<open>The last phase: the point at the right edge is inserted or the one found there is raised.\<close>

definition rightEdge :: "int \<Rightarrow> ContourPoint list \<Rightarrow> ContourPoint list \<Rightarrow> Contour" where
  "rightEdge right kept cur =
     (case cur of
        [] \<Rightarrow> kept @ [(right, heightOfPrev kept)]
      | p # ps \<Rightarrow>
          if fst p > right then kept @ [(right, heightOfPrev kept)] @ (p # ps)
          else if fst p = right then kept @ [(fst p, max (snd p) (heightOfPrev kept))] @ ps
          else kept @ (p # ps))"

definition updateContour :: "int \<Rightarrow> int \<Rightarrow> int \<Rightarrow> int \<Rightarrow> Contour \<Rightarrow> Contour" where
  "updateContour x y width height c =
     (let right = x + width; topY = y + height in
      if c = [] then [(x, topY), (right, 0)]
      else
        let pre = takeWhile (\<lambda>p. fst p < x) c;
            cur = dropWhile (\<lambda>p. fst p < x) c;
            (kept, cur) = leftEdge x topY pre cur;
            (kept, cur) = removeCovered right topY kept cur
        in rightEdge right kept cur)"

text \<open>The contour invariant: the points are strictly increasing in \<open>x\<close>.\<close>

definition strictlySorted :: "Contour \<Rightarrow> bool" where
  "strictlySorted c = sorted_wrt (<) (map fst c)"

text \<open>
  Modelled from the spec: \<open>getContourHeight\<close> (the spec's \<open>heightAt\<close>) is called by the
  packer but its body is not part of the source at hand. The spec: the contour is piecewise
  constant, between adjacent points \<open>(x\<^sub>i, h\<^sub>i)\<close> and \<open>(x\<^sub>i\<^sub>+\<^sub>1, h\<^sub>i\<^sub>+\<^sub>1)\<close> the height is
  \<open>h\<^sub>i\<close>, and the height is 0 where the contour is not defined. The packer below takes
  the height query as a parameter \<open>hgt\<close>; this definition is one instance, used where a
  concrete run is evaluated.
\<close>

fun getContourHeight :: "Contour \<Rightarrow> int \<Rightarrow> int" where
  "getContourHeight (p # q # ps) x =
     (if fst p \<le> x \<and> x < fst q then snd p else getContourHeight (q # ps) x)"
| "getContourHeight ps x = 0"

text \<open>
  \<open>hasContourOverlap\<close> scans the integer coordinates \<open>x, x + 1, \<dots>, x + width - 1\<close> and
  answers true at the first one whose contour height exceeds \<open>y\<close>. (The parameter
  \<open>height\<close> is not used by the source.)
\<close>

definition hasContourOverlap ::
  "(Contour \<Rightarrow> int \<Rightarrow> int) \<Rightarrow> Contour \<Rightarrow> int \<Rightarrow> int \<Rightarrow> int \<Rightarrow> int \<Rightarrow> bool" where
  "hasContourOverlap hgt c x y width height =
     (let right = x + width in list_ex (\<lambda>currX. hgt c currX > y) [x..right - 1])"

text \<open>
  Follows the spec's words (\<open>maxHeightOver\<close>, section 4.3), for comparison with what the
  packer computes: the maximum height across the half-open interval \<open>[x, x + width)\<close>, 0 if
  nothing of the contour lies there.
\<close>

definition maxHeightOver ::
  "(Contour \<Rightarrow> int \<Rightarrow> int) \<Rightarrow> Contour \<Rightarrow> int \<Rightarrow> int \<Rightarrow> int" where
  "maxHeightOver hgt c x width = fold (\<lambda>currX m. max m (hgt c currX)) [x..x + width - 1] 0"

section \<open>Modules, the symmetry group and the engine state\<close>

text \<open>
  Modelled from the spec: the class \<open>Module\<close> is declared in a header that is not part of
  the source at hand. The spec: a module carries integer \<open>width\<close>, \<open>height\<close>, a mutable
  integer position \<open>(x, y)\<close> and a boolean \<open>rotated\<close>; rotation swaps width and height.
  The record fields are named after the getters the source calls.
\<close>

record Module =
  getWidth :: int
  getHeight :: int
  getX :: int
  getY :: int
  getRotated :: bool

definition setPosition :: "int \<Rightarrow> int \<Rightarrow> Module \<Rightarrow> Module" where
  "setPosition px py m = m\<lparr>getX := px, getY := py\<rparr>"

text \<open>
  Modelled from the spec: \<open>rotate\<close> swaps width and height; the projector then has
  \<open>rotated = true\<close> on the partner (spec section 4.6). \<open>setRotation\<close> stores the flag.
\<close>

definition rotate :: "Module \<Rightarrow> Module" where
  "rotate m = m\<lparr>getWidth := getHeight m, getHeight := getWidth m, getRotated := True\<rparr>"

definition setRotation :: "bool \<Rightarrow> Module \<Rightarrow> Module" where
  "setRotation r m = m\<lparr>getRotated := r\<rparr>"

datatype SymmetryType = VERTICAL | HORIZONTAL

text \<open>
  A tree node: \<open>Null\<close> is the null pointer, \<open>Node name l r\<close> a \<open>BStarNode\<close> with its module
  name and its two child links. The packer only reads the tree.
\<close>

datatype BStarNode = Null | Node string BStarNode BStarNode

text \<open>
  The module table maps a name to its module; it is kept as an association list because
  \<open>validateSymmetry\<close> walks over all of it. Names are the keys of a C++ map, so a
  well-formed table has no name twice. The model has one module object per name.
\<close>

type_synonym ModuleTable = "(string \<times> Module) list"

text \<open>
  The engine. \<open>representativeModules\<close> is the key list of the source's map of that name,
  \<open>repToPairMap\<close> the list of its (representative, partner) entries; \<open>symmetryType\<close> and
  \<open>groupAxisPosition\<close> stand for \<open>symmetryGroup->getType()\<close> and for the value handed to
  \<open>symmetryGroup->setAxisPosition\<close>. Doubles are modelled by rationals: every double the
  engine computes from in-range integer coordinates is a multiple of 1/4 of small
  magnitude, on which double arithmetic is exact.
\<close>

record ASFBStarTree =
  modules :: ModuleTable
  symmetryType :: SymmetryType
  groupAxisPosition :: rat
  representativeModules :: "string list"
  repToPairMap :: "(string \<times> string) list"
  selfSymmetricModules :: "string list"
  root :: BStarNode
  contourHead :: Contour
  symmetryAxisPosition :: rat
  preorderTraversal :: "string list"
  inorderTraversal :: "string list"

text \<open>
  \<open>modules[name]->setPosition(px, py)\<close> and its siblings: the entry of \<open>name\<close> is replaced.
  The callers below look the name up first; a name that is not in the table is a null
  pointer dereference in the source and ends the model's run with \<open>None\<close>.
\<close>

definition updateModule :: "string \<Rightarrow> (Module \<Rightarrow> Module) \<Rightarrow> ModuleTable \<Rightarrow> ModuleTable" where
  "updateModule name f tbl = map (\<lambda>(k, m). if k = name then (k, f m) else (k, m)) tbl"

section \<open>Packing the representatives\<close>

type_synonym PackState = "(BStarNode \<times> int \<times> int) list \<times> Contour \<times> ModuleTable"

text \<open>
  The left-child block of the loop body. The queue entry carries the node's position (the
  source keeps it in \<open>nodePositions\<close>, keyed by the node).
\<close>

definition processLeft ::
  "(Contour \<Rightarrow> int \<Rightarrow> int) \<Rightarrow> string \<Rightarrow> BStarNode \<Rightarrow> int \<Rightarrow> int \<Rightarrow> PackState \<Rightarrow> PackState option"
where
  "processLeft hgt nodeName l nodeX nodeY st =
     (case st of (bfsQueue, c, tbl) \<Rightarrow>
        (case l of
           Null \<Rightarrow> Some st
         | Node lName ll lr \<Rightarrow>
             (case (map_of tbl nodeName, map_of tbl lName) of
                (Some parent, Some child) \<Rightarrow>
                  let leftX = nodeX + getWidth parent;
                      leftY = hgt c leftX;
                      leftY = (if \<not> hasContourOverlap hgt c leftX nodeY
                                      (getWidth child) (getHeight child)
                               then nodeY else leftY);
                      tbl = updateModule lName (setPosition leftX leftY) tbl;
                      c = updateContour leftX leftY (getWidth child) (getHeight child) c
                  in Some (bfsQueue @ [(l, leftX, leftY)], c, tbl)
              | _ \<Rightarrow> None)))"

definition processRight ::
  "string \<Rightarrow> BStarNode \<Rightarrow> int \<Rightarrow> int \<Rightarrow> PackState \<Rightarrow> PackState option"
where
  "processRight nodeName r nodeX nodeY st =
     (case st of (bfsQueue, c, tbl) \<Rightarrow>
        (case r of
           Null \<Rightarrow> Some st
         | Node rName rl rr \<Rightarrow>
             (case (map_of tbl nodeName, map_of tbl rName) of
                (Some parent, Some child) \<Rightarrow>
                  let rightX = nodeX;
                      rightY = nodeY + getHeight parent;
                      tbl = updateModule rName (setPosition rightX rightY) tbl;
                      c = updateContour rightX rightY (getWidth child) (getHeight child) c
                  in Some (bfsQueue @ [(r, rightX, rightY)], c, tbl)
              | _ \<Rightarrow> None)))"

fun nodeCount :: "BStarNode \<Rightarrow> nat" where
  "nodeCount Null = 0"
| "nodeCount (Node n l r) = Suc (nodeCount l + nodeCount r)"

text \<open>The loop: pop the front node, place its left child, then its right child.\<close>

function bfsLoop :: "(Contour \<Rightarrow> int \<Rightarrow> int) \<Rightarrow> PackState \<Rightarrow> (Contour \<times> ModuleTable) option" where
  "bfsLoop hgt ([], c, tbl) = Some (c, tbl)"
| "bfsLoop hgt ((Null, nodeX, nodeY) # bfsQueue, c, tbl) = None"
| "bfsLoop hgt ((Node n l r, nodeX, nodeY) # bfsQueue, c, tbl) =
     (case processLeft hgt n l nodeX nodeY (bfsQueue, c, tbl) of
        None \<Rightarrow> None
      | Some st1 \<Rightarrow>
          (case processRight n r nodeX nodeY st1 of
             None \<Rightarrow> None
           | Some st2 \<Rightarrow> bfsLoop hgt st2))"
  by pat_completeness auto

lemma processLeft_queue:
  assumes "processLeft hgt n l nodeX nodeY (q, c, tbl) = Some (q', c', tbl')"
  shows "map fst q' = map fst q @ (case l of Null \<Rightarrow> [] | Node a b d \<Rightarrow> [l])"
  using assms
  by (auto simp: processLeft_def Let_def split: BStarNode.splits option.splits)

lemma processRight_queue:
  assumes "processRight n r nodeX nodeY (q, c, tbl) = Some (q', c', tbl')"
  shows "map fst q' = map fst q @ (case r of Null \<Rightarrow> [] | Node a b d \<Rightarrow> [r])"
  using assms
  by (auto simp: processRight_def Let_def split: BStarNode.splits option.splits)

definition queueWeight :: "(BStarNode \<times> int \<times> int) list \<Rightarrow> nat" where
  "queueWeight q = sum_list (map nodeCount (map fst q))"

lemma queueWeight_step:
  assumes "processLeft hgt n l nodeX nodeY (q, c, tbl) = Some st1"
    and "processRight n r nodeX nodeY st1 = Some st2"
  shows "queueWeight (fst st2) < queueWeight ((Node n l r, nodeX, nodeY) # q)"
proof -
  obtain q1 c1 t1 where st1: "st1 = (q1, c1, t1)" by (cases st1)
  obtain q2 c2 t2 where st2: "st2 = (q2, c2, t2)" by (cases st2)
  have a: "map fst q1 = map fst q @ (case l of Null \<Rightarrow> [] | Node a b d \<Rightarrow> [l])"
    using processLeft_queue assms(1) st1 by blast
  have b: "map fst q2 = map fst q1 @ (case r of Null \<Rightarrow> [] | Node a b d \<Rightarrow> [r])"
    using processRight_queue assms(2) st1 st2 by blast
  show ?thesis
    by (simp add: queueWeight_def st2 a b split: BStarNode.splits)
qed

termination bfsLoop
proof (relation "measure (\<lambda>(hgt, st). queueWeight (fst st))")
  show "wf (measure (\<lambda>(hgt, st). queueWeight (fst st)))"
    by simp
next
  fix hgt :: "Contour \<Rightarrow> int \<Rightarrow> int"
    and n l r nodeX nodeY bfsQueue c tbl st1 st2
  assume "processLeft hgt n l nodeX nodeY (bfsQueue, c, tbl) = Some st1"
    and "processRight n r nodeX nodeY st1 = Some st2"
  then show "((hgt, st2), hgt, (Node n l r, nodeX, nodeY) # bfsQueue, c, tbl)
      \<in> measure (\<lambda>(hgt, st). queueWeight (fst st))"
    using queueWeight_step by simp
qed

section \<open>Compaction\<close>

text \<open>
  The working copies \<open>positions\<close> and \<open>dimensions\<close> of \<open>compactPlacement\<close>: name to
  \<open>(x, y)\<close> and name to \<open>(width, height)\<close>, one entry per representative, in the order
  in which the source's loops meet them. \<open>pairAt\<close> is \<open>operator[]\<close> of the C++ map, which
  answers a value-initialised pair for a name it does not hold.
\<close>

type_synonym PairMap = "(string \<times> int \<times> int) list"

definition pairAt :: "PairMap \<Rightarrow> string \<Rightarrow> int \<times> int" where
  "pairAt pm name = (case map_of pm name of Some p \<Rightarrow> p | None \<Rightarrow> (0, 0))"

fun collectRepresentatives :: "ModuleTable \<Rightarrow> string list \<Rightarrow> (PairMap \<times> PairMap) option" where
  "collectRepresentatives tbl [] = Some ([], [])"
| "collectRepresentatives tbl (name # names) =
     (case map_of tbl name of
        None \<Rightarrow> None
      | Some m \<Rightarrow>
          (case collectRepresentatives tbl names of
             None \<Rightarrow> None
           | Some (positions, dimensions) \<Rightarrow>
               Some ((name, getX m, getY m) # positions,
                     (name, getWidth m, getHeight m) # dimensions)))"

definition INT_MAX :: int where
  "INT_MAX = 2147483647"

definition INT_MIN :: int where
  "INT_MIN = - 2147483648"

text \<open>
  The first step of \<open>compactPlacement\<close>: the minimum \<open>x\<close> and \<open>y\<close> over the working
  positions, and the shift by them, which the source guards with
  \<open>minX > 0 || minY > 0\<close>.
\<close>

definition minXOf :: "PairMap \<Rightarrow> int" where
  "minXOf positions = fold (\<lambda>(name, px, py) minX. min minX px) positions INT_MAX"

definition minYOf :: "PairMap \<Rightarrow> int" where
  "minYOf positions = fold (\<lambda>(name, px, py) minY. min minY py) positions INT_MAX"

definition shiftToOrigin :: "PairMap \<Rightarrow> PairMap" where
  "shiftToOrigin positions =
     (let minX = minXOf positions; minY = minYOf positions in
      if minX > 0 \<or> minY > 0
      then map (\<lambda>(name, px, py). (name, px - minX, py - minY)) positions
      else positions)"

definition shiftLeft :: "string \<Rightarrow> int \<Rightarrow> PairMap \<Rightarrow> PairMap" where
  "shiftLeft name d positions =
     map (\<lambda>(k, px, py). if k = name then (k, px - d, py) else (k, px, py)) positions"

definition shiftDown :: "string \<Rightarrow> int \<Rightarrow> PairMap \<Rightarrow> PairMap" where
  "shiftDown name d positions =
     map (\<lambda>(k, px, py). if k = name then (k, px, py - d) else (k, px, py)) positions"

text \<open>
  The inner loop over the modules visited before \<open>currModule\<close>, for the scan in \<open>x\<close> and
  for the scan in \<open>y\<close>.
\<close>

definition maxLeftShiftOf :: "PairMap \<Rightarrow> PairMap \<Rightarrow> string list \<Rightarrow> string \<Rightarrow> int" where
  "maxLeftShiftOf positions dimensions visited currModule =
     (case (pairAt positions currModule, pairAt dimensions currModule) of
        ((currX, currY), (currWidth, currHeight)) \<Rightarrow>
          fold (\<lambda>prevModule maxLeftShift.
                  case (pairAt positions prevModule, pairAt dimensions prevModule) of
                    ((prevX, prevY), (prevWidth, prevHeight)) \<Rightarrow>
                      let yOverlap = \<not> (prevY + prevHeight \<le> currY \<or> currY + currHeight \<le> prevY)
                      in if yOverlap then min maxLeftShift (currX - (prevX + prevWidth))
                         else maxLeftShift)
               visited currX)"

definition maxDownShiftOf :: "PairMap \<Rightarrow> PairMap \<Rightarrow> string list \<Rightarrow> string \<Rightarrow> int" where
  "maxDownShiftOf positions dimensions visited currModule =
     (case (pairAt positions currModule, pairAt dimensions currModule) of
        ((currX, currY), (currWidth, currHeight)) \<Rightarrow>
          fold (\<lambda>prevModule maxDownShift.
                  case (pairAt positions prevModule, pairAt dimensions prevModule) of
                    ((prevX, prevY), (prevWidth, prevHeight)) \<Rightarrow>
                      let xOverlap = \<not> (prevX + prevWidth \<le> currX \<or> currX + currWidth \<le> prevX)
                      in if xOverlap then min maxDownShift (currY - (prevY + prevHeight))
                         else maxDownShift)
               visited currY)"

text \<open>The outer loops, from index 1 on: \<open>visited\<close> holds the modules at smaller indices.\<close>

fun compactXLoop :: "PairMap \<Rightarrow> string list \<Rightarrow> string list \<Rightarrow> PairMap \<Rightarrow> PairMap" where
  "compactXLoop dimensions visited [] positions = positions"
| "compactXLoop dimensions visited (currModule # rest) positions =
     (let maxLeftShift = maxLeftShiftOf positions dimensions visited currModule;
          positions = (if maxLeftShift > 0 then shiftLeft currModule maxLeftShift positions
                       else positions)
      in compactXLoop dimensions (visited @ [currModule]) rest positions)"

fun compactYLoop :: "PairMap \<Rightarrow> string list \<Rightarrow> string list \<Rightarrow> PairMap \<Rightarrow> PairMap" where
  "compactYLoop dimensions visited [] positions = positions"
| "compactYLoop dimensions visited (currModule # rest) positions =
     (let maxDownShift = maxDownShiftOf positions dimensions visited currModule;
          positions = (if maxDownShift > 0 then shiftDown currModule maxDownShift positions
                       else positions)
      in compactYLoop dimensions (visited @ [currModule]) rest positions)"

text \<open>
  Sorting the names by coordinate and scanning. \<open>std::sort\<close> leaves the order of names with
  equal coordinates open; the model takes the stable order.
\<close>

definition compactInX :: "PairMap \<Rightarrow> PairMap \<Rightarrow> PairMap" where
  "compactInX dimensions positions =
     (case sort_key (\<lambda>name. fst (pairAt positions name)) (map fst positions) of
        [] \<Rightarrow> positions
      | first # rest \<Rightarrow> compactXLoop dimensions [first] rest positions)"

definition compactInY :: "PairMap \<Rightarrow> PairMap \<Rightarrow> PairMap" where
  "compactInY dimensions positions =
     (case sort_key (\<lambda>name. snd (pairAt positions name)) (map fst positions) of
        [] \<Rightarrow> positions
      | first # rest \<Rightarrow> compactYLoop dimensions [first] rest positions)"

text \<open>The last loop: the working positions are written back to the modules.\<close>

definition writeBack :: "PairMap \<Rightarrow> ModuleTable \<Rightarrow> ModuleTable" where
  "writeBack positions tbl =
     fold (\<lambda>(moduleName, px, py) tbl. updateModule moduleName (setPosition px py) tbl)
          positions tbl"

text \<open>
  The computation on the working copy: the shift, then the two scans, in \<open>x\<close> first for
  a VERTICAL group and in \<open>y\<close> first for a HORIZONTAL one.
\<close>

definition compactedPositions :: "SymmetryType \<Rightarrow> PairMap \<Rightarrow> PairMap \<Rightarrow> PairMap" where
  "compactedPositions ty dimensions positions =
     (let positions = shiftToOrigin positions in
      if ty = VERTICAL
      then compactInY dimensions (compactInX dimensions positions)
      else compactInX dimensions (compactInY dimensions positions))"

definition compactPlacement :: "ASFBStarTree \<Rightarrow> ASFBStarTree option" where
  "compactPlacement s =
     (case collectRepresentatives (modules s) (representativeModules s) of
        None \<Rightarrow> None
      | Some (positions, dimensions) \<Rightarrow>
          let positions = compactedPositions (symmetryType s) dimensions positions
          in Some (s\<lparr>modules := writeBack positions (modules s)\<rparr>))"

text \<open>
  Modelled from the spec: \<open>clearContour\<close> (the spec's \<open>reset\<close>) drops all points,
  producing the empty contour.
\<close>

definition clearContour :: "ASFBStarTree \<Rightarrow> ASFBStarTree" where
  "clearContour s = s\<lparr>contourHead := []\<rparr>"

text \<open>The root is placed at the origin and starts the queue.\<close>

definition placeRoot :: "ASFBStarTree \<Rightarrow> PackState option" where
  "placeRoot s =
     (case root s of
        Null \<Rightarrow> Some ([], contourHead s, modules s)
      | Node n l r \<Rightarrow>
          (case map_of (modules s) n of
             None \<Rightarrow> None
           | Some m \<Rightarrow>
               Some ([(root s, 0, 0)],
                     updateContour 0 0 (getWidth m) (getHeight m) (contourHead s),
                     updateModule n (setPosition 0 0) (modules s))))"

definition packBStarTree :: "(Contour \<Rightarrow> int \<Rightarrow> int) \<Rightarrow> ASFBStarTree \<Rightarrow> ASFBStarTree option" where
  "packBStarTree hgt s =
     (let s = clearContour s in
      case placeRoot s of
        None \<Rightarrow> None
      | Some st \<Rightarrow>
          (case bfsLoop hgt st of
             None \<Rightarrow> None
           | Some (c, tbl) \<Rightarrow> compactPlacement (s\<lparr>contourHead := c, modules := tbl\<rparr>)))"

section \<open>The symmetry axis\<close>

text \<open>
  The VERTICAL and the HORIZONTAL branch of each function below differ in the source only
  in reading \<open>x\<close> and \<open>width\<close> or \<open>y\<close> and \<open>height\<close>; \<open>axisCoord\<close> and \<open>axisExtent\<close>
  choose between them.
\<close>

definition axisCoord :: "SymmetryType \<Rightarrow> Module \<Rightarrow> int" where
  "axisCoord ty m = (if ty = VERTICAL then getX m else getY m)"

definition axisExtent :: "SymmetryType \<Rightarrow> Module \<Rightarrow> int" where
  "axisExtent ty m = (if ty = VERTICAL then getWidth m else getHeight m)"

text \<open>A loop whose body may dereference a missing module: the first failure ends it.\<close>

fun foldOption :: "('a \<Rightarrow> 'b \<Rightarrow> 'b option) \<Rightarrow> 'a list \<Rightarrow> 'b \<Rightarrow> 'b option" where
  "foldOption f [] acc = Some acc"
| "foldOption f (a # as) acc =
     (case f a acc of None \<Rightarrow> None | Some acc' \<Rightarrow> foldOption f as acc')"

text \<open>
  \<open>std::numeric_limits<double>::min()\<close> is the smallest positive normal double, not the
  most negative one. Adding \<open>1.0\<close> to it gives \<open>1.0\<close> in double arithmetic; every other
  value that reaches \<open>minAxisPosition + 1.0\<close> is a multiple of 1/4 and the sum is exact.
\<close>

definition DBL_MIN :: rat where
  "DBL_MIN = 1 / 2 ^ 1022"

definition addBuffer :: "rat \<Rightarrow> rat" where
  "addBuffer minAxisPosition = (if minAxisPosition = DBL_MIN then 1 else minAxisPosition + 1)"

text \<open>First pass over \<open>repToPairMap\<close>: the largest right (bottom) edge of a pair's representative.\<close>

definition maxRepEdge :: "SymmetryType \<Rightarrow> ModuleTable \<Rightarrow> (string \<times> string) list \<Rightarrow> rat option" where
  "maxRepEdge ty tbl pairs =
     foldOption (\<lambda>(repName, symName) maxRepRightEdge.
                   case map_of tbl repName of
                     None \<Rightarrow> None
                   | Some repModule \<Rightarrow>
                       let repRightEdge = of_int (axisCoord ty repModule + axisExtent ty repModule)
                       in Some (max maxRepRightEdge repRightEdge))
                pairs DBL_MIN"

text \<open>Second pass: the smallest axis that keeps every mirrored partner at a non-negative coordinate.\<close>

definition minAxisOver ::
  "SymmetryType \<Rightarrow> ModuleTable \<Rightarrow> (string \<times> string) list \<Rightarrow> rat \<Rightarrow> rat option" where
  "minAxisOver ty tbl pairs start =
     foldOption (\<lambda>(repName, symName) minAxisPosition.
                   case (map_of tbl repName, map_of tbl symName) of
                     (Some repModule, Some symModule) \<Rightarrow>
                       let repCenterX = of_int (axisCoord ty repModule)
                                        + of_int (axisExtent ty repModule) / 2;
                           minAxisForPositiveCoords =
                             (repCenterX + of_int (axisExtent ty symModule) / 2) / 2
                       in Some (max minAxisPosition minAxisForPositiveCoords)
                   | _ \<Rightarrow> None)
                pairs start"

text \<open>The branch without pairs: the layout's far edge and the widest self-symmetric module.\<close>

definition layoutMax :: "SymmetryType \<Rightarrow> ModuleTable \<Rightarrow> string list \<Rightarrow> int option" where
  "layoutMax ty tbl reps =
     foldOption (\<lambda>name maxX.
                   case map_of tbl name of
                     None \<Rightarrow> None
                   | Some m \<Rightarrow> Some (max maxX (axisCoord ty m + axisExtent ty m)))
                reps INT_MIN"

definition maxSelfSymExtent :: "SymmetryType \<Rightarrow> ModuleTable \<Rightarrow> string list \<Rightarrow> int option" where
  "maxSelfSymExtent ty tbl selfs =
     foldOption (\<lambda>moduleName maxSelfSymWidth.
                   case map_of tbl moduleName of
                     None \<Rightarrow> None
                   | Some m \<Rightarrow> Some (max maxSelfSymWidth (axisExtent ty m)))
                selfs 0"

text \<open>
  The value the function arrives at: from the pairs when there are any, else from the
  layout when there are self-symmetric modules, else the axis as it stands.
\<close>

definition computedAxis :: "ASFBStarTree \<Rightarrow> rat option" where
  "computedAxis s =
     (let ty = symmetryType s; tbl = modules s in
      if repToPairMap s \<noteq> [] then
        (case maxRepEdge ty tbl (repToPairMap s) of
           None \<Rightarrow> None
         | Some maxRepRightEdge \<Rightarrow>
             (case minAxisOver ty tbl (repToPairMap s) maxRepRightEdge of
                None \<Rightarrow> None
              | Some minAxisPosition \<Rightarrow> Some (addBuffer minAxisPosition)))
      else if selfSymmetricModules s \<noteq> [] then
        (case layoutMax ty tbl (representativeModules s) of
           None \<Rightarrow> None
         | Some maxX \<Rightarrow>
             (case maxSelfSymExtent ty tbl (selfSymmetricModules s) of
                None \<Rightarrow> None
              | Some maxSelfSymWidth \<Rightarrow>
                  Some (of_int maxX + of_int maxSelfSymWidth / 2 + 1)))
      else Some (symmetryAxisPosition s))"

definition calculateSymmetryAxisPosition :: "ASFBStarTree \<Rightarrow> ASFBStarTree option" where
  "calculateSymmetryAxisPosition s =
     (case computedAxis s of
        None \<Rightarrow> None
      | Some axis \<Rightarrow> Some (s\<lparr>symmetryAxisPosition := axis, groupAxisPosition := axis\<rparr>))"

section \<open>Projecting the partners and centring the self-symmetric modules\<close>

text \<open>\<open>static_cast<int>(std::round(v))\<close>: halves are rounded away from zero.\<close>

definition roundToInt :: "rat \<Rightarrow> int" where
  "roundToInt v = (if 0 \<le> v then \<lfloor>v + 1 / 2\<rfloor> else \<lceil>v - 1 / 2\<rceil>)"

text \<open>
  The test at the head of the loop over \<open>repToPairMap\<close>: the dimensions differ and
  rotating the partner makes them match.
\<close>

definition needsRotation :: "Module \<Rightarrow> Module \<Rightarrow> bool" where
  "needsRotation repModule symModule =
     ((getWidth repModule \<noteq> getWidth symModule \<or> getHeight repModule \<noteq> getHeight symModule)
      \<and> getWidth repModule = getHeight symModule
      \<and> getHeight repModule = getWidth symModule)"

text \<open>One pass of the loop over \<open>repToPairMap\<close>.\<close>

definition projectPair ::
  "SymmetryType \<Rightarrow> rat \<Rightarrow> string \<times> string \<Rightarrow> ModuleTable \<Rightarrow> ModuleTable option" where
  "projectPair ty axis pr tbl =
     (case pr of (repName, symName) \<Rightarrow>
        (case (map_of tbl repName, map_of tbl symName) of
           (Some repModule, Some symModule) \<Rightarrow>
             let rotating = needsRotation repModule symModule;
                 tbl = (if rotating then updateModule symName rotate tbl else tbl);
                 symModule = (if rotating then rotate symModule else symModule);
                 repCenter = of_int (axisCoord ty repModule) + of_int (axisExtent ty repModule) / 2;
                 symCenter = 2 * axis - repCenter;
                 symInt = roundToInt (symCenter - of_int (axisExtent ty symModule) / 2);
                 tbl = (if ty = VERTICAL
                        then updateModule symName (setPosition symInt (getY repModule)) tbl
                        else updateModule symName (setPosition (getX repModule) symInt) tbl)
             in Some (if \<not> rotating
                      then updateModule symName (setRotation (getRotated repModule)) tbl
                      else tbl)
         | _ \<Rightarrow> None))"

text \<open>
  The integer coordinate chosen for a self-symmetric module of extent \<open>moduleWidth\<close>:
  the rounded exact position, then the probe of the two neighbours when the centre is more
  than 0.25 away from the axis.
\<close>

definition centredCoord :: "rat \<Rightarrow> int \<Rightarrow> int" where
  "centredCoord axis moduleWidth =
     (let exactLeft = axis - of_int moduleWidth / 2;
          moduleX = roundToInt exactLeft;
          resultingCenterX = of_int moduleX + of_int moduleWidth / 2;
          centerError = \<bar>resultingCenterX - axis\<bar>
      in if centerError > 1 / 4 then
           (let altX1 = moduleX - 1;
                altX2 = moduleX + 1;
                altCenter1 = of_int altX1 + of_int moduleWidth / 2;
                altCenter2 = of_int altX2 + of_int moduleWidth / 2;
                altError1 = \<bar>altCenter1 - axis\<bar>;
                altError2 = \<bar>altCenter2 - axis\<bar>
            in if altError1 < centerError \<and> altError1 < altError2 then altX1
               else if altError2 < centerError then altX2
               else moduleX)
         else moduleX)"

text \<open>One pass of the loop over \<open>selfSymmetricModules\<close>.\<close>

definition centreSelfSymmetric ::
  "SymmetryType \<Rightarrow> rat \<Rightarrow> string \<Rightarrow> ModuleTable \<Rightarrow> ModuleTable option" where
  "centreSelfSymmetric ty axis moduleName tbl =
     (case map_of tbl moduleName of
        None \<Rightarrow> None
      | Some m \<Rightarrow>
          let moduleX = centredCoord axis (axisExtent ty m) in
          Some (updateModule moduleName
                  (if ty = VERTICAL then setPosition moduleX (getY m)
                   else setPosition (getX m) moduleX) tbl))"

definition updateSymmetricModulePositions :: "ASFBStarTree \<Rightarrow> ASFBStarTree option" where
  "updateSymmetricModulePositions s =
     (case (if symmetryAxisPosition s < 0 then calculateSymmetryAxisPosition s else Some s) of
        None \<Rightarrow> None
      | Some s \<Rightarrow>
          (case foldOption (projectPair (symmetryType s) (symmetryAxisPosition s))
                  (repToPairMap s) (modules s) of
             None \<Rightarrow> None
           | Some tbl \<Rightarrow>
               (case foldOption (centreSelfSymmetric (symmetryType s) (symmetryAxisPosition s))
                       (selfSymmetricModules s) tbl of
                  None \<Rightarrow> None
                | Some tbl \<Rightarrow> Some (s\<lparr>modules := tbl\<rparr>))))"

section \<open>Validation and the full pipeline\<close>

text \<open>
  The checks of \<open>validateSymmetry\<close>, one predicate per loop, true at an entry that makes the
  source return false. A pair or a self-symmetric name that is missing from the table is
  skipped (\<open>continue\<close>).
\<close>

definition hasNegativeCoord :: "string \<times> Module \<Rightarrow> bool" where
  "hasNegativeCoord entry = (getX (snd entry) < 0 \<or> getY (snd entry) < 0)"

definition pairViolation :: "ASFBStarTree \<Rightarrow> string \<times> string \<Rightarrow> bool" where
  "pairViolation s pr =
     (case (map_of (modules s) (fst pr), map_of (modules s) (snd pr)) of
        (Some repModule, Some symModule) \<Rightarrow>
          let repCenterX = (of_int (getX repModule) + of_int (getWidth repModule) / 2 :: rat);
              repCenterY = (of_int (getY repModule) + of_int (getHeight repModule) / 2 :: rat);
              symCenterX = (of_int (getX symModule) + of_int (getWidth symModule) / 2 :: rat);
              symCenterY = (of_int (getY symModule) + of_int (getHeight symModule) / 2 :: rat);
              expectedSum = 2 * symmetryAxisPosition s
          in if symmetryType s = VERTICAL
             then \<bar>expectedSum - (repCenterX + symCenterX)\<bar> > 1 \<or> \<bar>repCenterY - symCenterY\<bar> > 1
             else \<bar>expectedSum - (repCenterY + symCenterY)\<bar> > 1 \<or> \<bar>repCenterX - symCenterX\<bar> > 1
      | _ \<Rightarrow> False)"

definition selfViolation :: "ASFBStarTree \<Rightarrow> string \<Rightarrow> bool" where
  "selfViolation s moduleName =
     (case map_of (modules s) moduleName of
        None \<Rightarrow> False
      | Some m \<Rightarrow>
          let centerX = (of_int (getX m) + of_int (getWidth m) / 2 :: rat);
              centerY = (of_int (getY m) + of_int (getHeight m) / 2 :: rat)
          in if symmetryType s = VERTICAL
             then \<bar>centerX - symmetryAxisPosition s\<bar> > 1
             else \<bar>centerY - symmetryAxisPosition s\<bar> > 1)"

definition validateSymmetry :: "ASFBStarTree \<Rightarrow> bool" where
  "validateSymmetry s =
     (if list_ex hasNegativeCoord (modules s) then False
      else if list_ex (pairViolation s) (repToPairMap s) then False
      else if list_ex (selfViolation s) (selfSymmetricModules s) then False
      else True)"

text \<open>
  Modelled from the spec: the traversals \<open>preorder\<close> and \<open>inorder\<close> fill the two name
  sequences; their bodies are not part of the source at hand.
\<close>

fun preorder :: "BStarNode \<Rightarrow> string list" where
  "preorder Null = []"
| "preorder (Node n l r) = n # preorder l @ preorder r"

fun inorder :: "BStarNode \<Rightarrow> string list" where
  "inorder Null = []"
| "inorder (Node n l r) = inorder l @ n # inorder r"

text \<open>
  \<open>pack\<close>. Nothing in the modelled body throws a \<open>std::exception\<close>, so the handler of the
  source is not reached; dereferencing a missing module is undefined behaviour and is the
  result \<open>None\<close>. Otherwise the result is the boolean and the state left behind.
\<close>

definition pack :: "(Contour \<Rightarrow> int \<Rightarrow> int) \<Rightarrow> ASFBStarTree \<Rightarrow> (bool \<times> ASFBStarTree) option" where
  "pack hgt s =
     (let s = s\<lparr>preorderTraversal := preorder (root s), inorderTraversal := inorder (root s)\<rparr> in
      case packBStarTree hgt s of
        None \<Rightarrow> None
      | Some s \<Rightarrow>
          (case calculateSymmetryAxisPosition s of
             None \<Rightarrow> None
           | Some s \<Rightarrow>
               (case updateSymmetricModulePositions s of
                  None \<Rightarrow> None
                | Some s \<Rightarrow> Some (if \<not> validateSymmetry s then False else True, s))))"

section \<open>Notions used by the properties\<close>

text \<open>
  Two placed rectangles \<open>[x, x + width) \<times> [y, y + height)\<close> overlap in their interior, and
  a table in which no two entries do.
\<close>

definition interiorsOverlap :: "Module \<Rightarrow> Module \<Rightarrow> bool" where
  "interiorsOverlap a b =
     (max (getX a) (getX b) < min (getX a + getWidth a) (getX b + getWidth b)
      \<and> max (getY a) (getY b) < min (getY a + getHeight a) (getY b + getHeight b))"

fun overlapFree :: "ModuleTable \<Rightarrow> bool" where
  "overlapFree [] = True"
| "overlapFree (e # rest) =
     (list_all (\<lambda>e'. \<not> interiorsOverlap (snd e) (snd e')) rest \<and> overlapFree rest)"

section \<open>Concrete groups\<close>

definition newModule :: "int \<Rightarrow> int \<Rightarrow> Module" where
  "newModule w h = \<lparr>getWidth = w, getHeight = h, getX = 0, getY = 0, getRotated = False\<rparr>"

definition placed :: "int \<Rightarrow> int \<Rightarrow> int \<Rightarrow> int \<Rightarrow> Module" where
  "placed w h px py = \<lparr>getWidth = w, getHeight = h, getX = px, getY = py, getRotated = False\<rparr>"

definition newEngine ::
  "ModuleTable \<Rightarrow> SymmetryType \<Rightarrow> string list \<Rightarrow> (string \<times> string) list \<Rightarrow> string list
     \<Rightarrow> BStarNode \<Rightarrow> ASFBStarTree" where
  "newEngine tbl ty reps pairs selfs t =
     \<lparr>modules = tbl, symmetryType = ty, groupAxisPosition = 0, representativeModules = reps,
      repToPairMap = pairs, selfSymmetricModules = selfs, root = t, contourHead = [],
      symmetryAxisPosition = 0, preorderTraversal = [], inorderTraversal = []\<rparr>"

text \<open>
  A VERTICAL group with the self-symmetric module \<open>c\<close> (6 by 2) and the pair \<open>(d, d2)\<close> (2 by
  2 each); \<open>c\<close> is the root and \<open>d\<close> its left child, so \<open>c\<close> lies on the rightmost branch.
\<close>

definition groupSelfRoot :: ASFBStarTree where
  "groupSelfRoot =
     newEngine [(''c'', newModule 6 2), (''d'', newModule 2 2), (''d2'', newModule 2 2)]
       VERTICAL [''c'', ''d''] [(''d'', ''d2'')] [''c'']
       (Node ''c'' (Node ''d'' Null Null) Null)"

definition groupSelfRootPacked :: ASFBStarTree where
  "groupSelfRootPacked =
     \<lparr>modules = [(''c'', placed 6 2 6 0), (''d'', placed 2 2 6 0), (''d2'', placed 2 2 10 0)],
      symmetryType = VERTICAL, groupAxisPosition = 9, representativeModules = [''c'', ''d''],
      repToPairMap = [(''d'', ''d2'')], selfSymmetricModules = [''c''],
      root = Node ''c'' (Node ''d'' Null Null) Null,
      contourHead = [(0, 2), (6, 2), (8, 2)], symmetryAxisPosition = 9,
      preorderTraversal = [''c'', ''d''], inorderTraversal = [''d'', ''c'']\<rparr>"


text \<open>
  A pair whose representative \<open>a\<close> stands at \<open>(3, 0)\<close> and whose partner \<open>a2\<close> stands at
  \<open>(7, 1)\<close>, and a group whose only representative stands at \<open>(-1, -1)\<close>.
\<close>

definition groupShifted :: ASFBStarTree where
  "groupShifted =
     newEngine [(''a'', placed 2 2 3 0), (''a2'', placed 2 2 7 1)]
       VERTICAL [''a''] [(''a'', ''a2'')] [] (Node ''a'' Null Null)"

definition groupNegative :: ASFBStarTree where
  "groupNegative =
     newEngine [(''a'', placed 2 2 (- 1) (- 1))] VERTICAL [''a''] [] [''a''] (Node ''a'' Null Null)"

text \<open>A self-symmetric module of width 3 and an axis at 9/4.\<close>

definition groupOddSelf :: ASFBStarTree where
  "groupOddSelf =
     (newEngine [(''c'', placed 3 2 0 0)] VERTICAL [''c''] [] [''c''] (Node ''c'' Null Null))
       \<lparr>symmetryAxisPosition := 9 / 4\<rparr>"

text \<open>
  Six unit-wide representatives: \<open>A\<close> is the root, \<open>L\<close> its left and \<open>B\<close> its right child;
  \<open>LL\<close> (height 5) and \<open>LR\<close> are the children of \<open>L\<close>, and \<open>BL\<close> (width 3) is the left child
  of \<open>B\<close>. \<open>stairContour\<close> and \<open>stairPlaced\<close> are the contour and the table at the moment
  the loop pops \<open>B\<close>.
\<close>

definition stairTree :: BStarNode where
  "stairTree =
     Node ''A'' (Node ''L'' (Node ''LL'' Null Null) (Node ''LR'' Null Null))
                (Node ''B'' (Node ''BL'' Null Null) Null)"

definition stairModules :: ModuleTable where
  "stairModules =
     [(''A'', newModule 1 1), (''L'', newModule 1 1), (''B'', newModule 1 1),
      (''LL'', newModule 1 5), (''LR'', newModule 1 1), (''BL'', newModule 3 1)]"

definition stairContour :: Contour where
  "stairContour = [(0, 2), (1, 2), (2, 5), (3, 5)]"

definition stairPlaced :: ModuleTable where
  "stairPlaced =
     [(''A'', placed 1 1 0 0), (''L'', placed 1 1 1 0), (''B'', placed 1 1 0 1),
      (''LL'', placed 1 5 2 0), (''LR'', placed 1 1 1 1), (''BL'', placed 3 1 0 0)]"

definition stairEngine :: ASFBStarTree where
  "stairEngine =
     newEngine stairModules VERTICAL [''A'', ''L'', ''B'', ''LL'', ''LR'', ''BL''] [] [] stairTree"

definition stairQueue :: "(BStarNode \<times> int \<times> int) list" where
  "stairQueue = [(Node ''LL'' Null Null, 2, 0), (Node ''LR'' Null Null, 1, 1)]"




section \<open>Building the initial tree\<close>

text \<open>
  \<open>buildInitialBStarTree\<close> creates one node per representative, finds the nodes again
  through \<open>nodeMap\<close> and links them by assigning child pointers. The model of the builder
  therefore keeps the pointers in a store: a node is identified by its module name, a
  pointer is a name or \<open>None\<close> for null, and \<open>leftPtr\<close> and \<open>rightPtr\<close> hold the two child
  links of every node.
\<close>

record TreeStore =
  rootPtr :: "string option"
  leftPtr :: "string \<Rightarrow> string option"
  rightPtr :: "string \<Rightarrow> string option"

text \<open>
  The two halves of the builder (VERTICAL and HORIZONTAL) are mirror images: what one does
  with \<open>right\<close> the other does with \<open>left\<close>. \<open>Side\<close> names the link.
\<close>

datatype Side = LeftChild | RightChild

fun otherSide :: "Side \<Rightarrow> Side" where
  "otherSide LeftChild = RightChild"
| "otherSide RightChild = LeftChild"

definition boundarySide :: "SymmetryType \<Rightarrow> Side" where
  "boundarySide ty = (if ty = VERTICAL then RightChild else LeftChild)"

definition childPtr :: "TreeStore \<Rightarrow> Side \<Rightarrow> string \<Rightarrow> string option" where
  "childPtr t side n = (case side of LeftChild \<Rightarrow> leftPtr t n | RightChild \<Rightarrow> rightPtr t n)"

definition setChild :: "Side \<Rightarrow> string \<Rightarrow> string option \<Rightarrow> TreeStore \<Rightarrow> TreeStore" where
  "setChild side n p t =
     (case side of
        LeftChild \<Rightarrow> t\<lparr>leftPtr := (leftPtr t)(n := p)\<rparr>
      | RightChild \<Rightarrow> t\<lparr>rightPtr := (rightPtr t)(n := p)\<rparr>)"

text \<open>\<open>nodeMap[name]\<close>: the node of a representative, null for any other name.\<close>

definition nodeMapAt :: "string list \<Rightarrow> string \<Rightarrow> string option" where
  "nodeMapAt repModuleNames name = (if name \<in> set repModuleNames then Some name else None)"

text \<open>
  Modelled from the spec: \<open>isSelfSymmetric\<close> is not part of the source at hand; a module is
  self-symmetric when it is one of the group's self-symmetric module names.
\<close>

definition isSelfSymmetric :: "ASFBStarTree \<Rightarrow> string \<Rightarrow> bool" where
  "isSelfSymmetric s name = (name \<in> set (selfSymmetricModules s))"

text \<open>
  The ways the builder ends without a tree: the three exceptions it throws, and \<open>NoResult\<close>
  for a null dereference or a loop that does not end.
\<close>

datatype BuildError = NoModules | InvalidStructure | ConstraintViolation | NoResult

text \<open>
  The loop that chains the self-symmetric modules along the boundary branch. Its log line
  reads \<open>currentNode->moduleName\<close>, so a null \<open>currentNode\<close> is a null dereference.
\<close>

fun chainSelfSymmetric ::
  "Side \<Rightarrow> (string \<Rightarrow> string option) \<Rightarrow> string list \<Rightarrow> string option \<times> TreeStore
     \<Rightarrow> (string option \<times> TreeStore) option" where
  "chainSelfSymmetric side nodeMap [] st = Some st"
| "chainSelfSymmetric side nodeMap (name # names) (currentNode, t) =
     (case currentNode of
        None \<Rightarrow> None
      | Some cur \<Rightarrow>
          chainSelfSymmetric side nodeMap names (nodeMap name, setChild side cur (nodeMap name) t))"

text \<open>
  The walk \<open>while (rightmost->right != nullptr) rightmost = rightmost->right\<close> and the
  recursive search for a node with a free slot. Both are bounded by \<open>fuel\<close>; the builder
  passes one more than the number of nodes, and a walk or a descent that is longer than
  that has met a node twice and does not end in the source. \<open>None\<close> is that outcome.
\<close>

fun branchEnd :: "nat \<Rightarrow> TreeStore \<Rightarrow> Side \<Rightarrow> string \<Rightarrow> string option" where
  "branchEnd 0 t side n = None"
| "branchEnd (Suc fuel) t side n =
     (case childPtr t side n of
        None \<Rightarrow> Some n
      | Some m \<Rightarrow> branchEnd fuel t side m)"

text \<open>
  \<open>findOpenRightSlot\<close> (\<open>side = RightChild\<close>) and \<open>findOpenLeftSlot\<close> (\<open>side = LeftChild\<close>):
  the node itself when its slot is free, else the search in the child on the other side
  and, when that finds nothing, in the child on this side. The inner option is \<open>target\<close>.
\<close>

fun findOpenSlot :: "nat \<Rightarrow> TreeStore \<Rightarrow> Side \<Rightarrow> string option \<Rightarrow> string option option" where
  "findOpenSlot 0 t side node = None"
| "findOpenSlot (Suc fuel) t side None = Some None"
| "findOpenSlot (Suc fuel) t side (Some n) =
     (if childPtr t side n = None then Some (Some n)
      else
        (case findOpenSlot fuel t side (childPtr t (otherSide side) n) of
           None \<Rightarrow> None
         | Some (Some target) \<Rightarrow> Some (Some target)
         | Some None \<Rightarrow> findOpenSlot fuel t side (childPtr t side n)))"

text \<open>The case \<open>i == 0\<close>: the module is appended at the end of the boundary branch.\<close>

definition attachFirst ::
  "nat \<Rightarrow> Side \<Rightarrow> string option \<Rightarrow> TreeStore \<Rightarrow> (string option \<times> TreeStore) option" where
  "attachFirst fuel side newNode t =
     (case rootPtr t of
        None \<Rightarrow> None
      | Some r \<Rightarrow>
          if childPtr t side r = None then Some (newNode, setChild side r newNode t)
          else
            (case branchEnd fuel t side r of
               None \<Rightarrow> None
             | Some e \<Rightarrow> Some (newNode, setChild side e newNode t)))"

text \<open>The cases \<open>i > 0\<close>: under \<open>currentNode\<close> when its slot is free, else at the node found.\<close>

definition attachAt ::
  "nat \<Rightarrow> Side \<Rightarrow> string option \<Rightarrow> string option \<times> TreeStore
     \<Rightarrow> (string option \<times> TreeStore) option" where
  "attachAt fuel side newNode st =
     (case st of (currentNode, t) \<Rightarrow>
        (case currentNode of
           None \<Rightarrow> None
         | Some cur \<Rightarrow>
             if childPtr t side cur = None then Some (newNode, setChild side cur newNode t)
             else
               (case findOpenSlot fuel t side (rootPtr t) of
                  None \<Rightarrow> None
                | Some None \<Rightarrow> Some (currentNode, t)
                | Some (Some target) \<Rightarrow> Some (newNode, setChild side target newNode t))))"

fun placeOthers ::
  "nat \<Rightarrow> Side \<Rightarrow> (string \<Rightarrow> string option) \<Rightarrow> nat \<Rightarrow> string list
     \<Rightarrow> string option \<times> TreeStore \<Rightarrow> (string option \<times> TreeStore) option" where
  "placeOthers fuel side nodeMap i [] st = Some st"
| "placeOthers fuel side nodeMap i (moduleName # rest) st =
     (case (if i = 0 then attachFirst fuel side (nodeMap moduleName) (snd st)
            else if i mod 2 = 0 then attachAt fuel side (nodeMap moduleName) st
            else attachAt fuel (otherSide side) (nodeMap moduleName) st) of
        None \<Rightarrow> None
      | Some st' \<Rightarrow> placeOthers fuel side nodeMap (Suc i) rest st')"

text \<open>
  The sort of the other representatives: by height for VERTICAL, by width for HORIZONTAL
  (\<open>std::sort\<close>; the model takes the stable order). The comparator dereferences
  \<open>modules[name]\<close>; it runs when there are at least two names to compare.
\<close>

definition sortExtent :: "ASFBStarTree \<Rightarrow> string \<Rightarrow> int" where
  "sortExtent s name =
     (case map_of (modules s) name of
        None \<Rightarrow> 0
      | Some m \<Rightarrow> if symmetryType s = VERTICAL then getHeight m else getWidth m)"

definition emptyStore :: TreeStore where
  "emptyStore = \<lparr>rootPtr = None, leftPtr = (\<lambda>n. None), rightPtr = (\<lambda>n. None)\<rparr>"

text \<open>
  The linking part of the builder, up to the log of the resulting tree. The old tree is
  torn down first, so the links start from the empty store.
\<close>

definition linkNodes :: "ASFBStarTree \<Rightarrow> BuildError + TreeStore" where
  "linkNodes s =
     (let repModuleNames = representativeModules s;
          nonSelfSymModules = filter (\<lambda>name. \<not> isSelfSymmetric s name) repModuleNames;
          selfSymModules = selfSymmetricModules s;
          nodeMap = nodeMapAt repModuleNames;
          side = boundarySide (symmetryType s);
          fuel = Suc (length repModuleNames)
      in if 2 \<le> length nonSelfSymModules
            \<and> \<not> list_all (\<lambda>name. map_of (modules s) name \<noteq> None) nonSelfSymModules
         then Inl NoResult
         else
           let nonSelfSymModules = sort_key (sortExtent s) nonSelfSymModules in
           if repModuleNames = [] then Inr emptyStore
           else
             (case (case nonSelfSymModules of
                      rootName # others \<Rightarrow> Some (rootName, others, selfSymModules)
                    | [] \<Rightarrow>
                        (case selfSymModules of
                           rootName # others \<Rightarrow> Some (rootName, [], others)
                         | [] \<Rightarrow> None)) of
                None \<Rightarrow> Inl NoModules
              | Some (rootName, nonSelfSymModules, selfSymModules) \<Rightarrow>
                  let t = emptyStore\<lparr>rootPtr := nodeMap rootName\<rparr> in
                  (case chainSelfSymmetric side nodeMap selfSymModules (rootPtr t, t) of
                     None \<Rightarrow> Inl NoResult
                   | Some st \<Rightarrow>
                       (case placeOthers fuel side nodeMap 0 nonSelfSymModules st of
                          None \<Rightarrow> Inl NoResult
                        | Some (currentNode, t) \<Rightarrow> Inr t))))"

text \<open>
  The builder. The two validators at its end, \<open>validateTreeStructure\<close> and
  \<open>validateSymmetryConstraints\<close>, are not part of the source at hand and are parameters.
\<close>

definition buildInitialBStarTree ::
  "(TreeStore \<Rightarrow> bool) \<Rightarrow> (TreeStore \<Rightarrow> bool) \<Rightarrow> ASFBStarTree \<Rightarrow> BuildError + TreeStore" where
  "buildInitialBStarTree validateTreeStructure validateSymmetryConstraints s =
     (case linkNodes s of
        Inl e \<Rightarrow> Inl e
      | Inr t \<Rightarrow>
          if \<not> validateTreeStructure t then Inl InvalidStructure
          else if \<not> validateSymmetryConstraints t then Inl ConstraintViolation
          else Inr t)"

text \<open>
  A node lies on the branch of a side when it is the root or the child on that side of a
  node on the branch: the rightmost branch for \<open>RightChild\<close>, the leftmost for \<open>LeftChild\<close>.
\<close>

inductive onBranch :: "TreeStore \<Rightarrow> Side \<Rightarrow> string \<Rightarrow> bool" for t :: TreeStore and side :: Side where
  atRoot: "rootPtr t = Some n \<Longrightarrow> onBranch t side n"
| atChild: "onBranch t side m \<Longrightarrow> childPtr t side m = Some n \<Longrightarrow> onBranch t side n"

text \<open>
  A VERTICAL group with the self-symmetric module \<open>c\<close> and three pairs whose
  representatives are \<open>p\<close>, \<open>q\<close> and \<open>r\<close>, of heights 1, 2 and 3.
\<close>

definition groupFour :: ASFBStarTree where
  "groupFour =
     newEngine [(''c'', newModule 6 2), (''p'', newModule 2 1), (''p2'', newModule 2 1),
                (''q'', newModule 2 2), (''q2'', newModule 2 2),
                (''r'', newModule 2 3), (''r2'', newModule 2 3)]
       VERTICAL [''c'', ''p'', ''q'', ''r''] [(''p'', ''p2''), (''q'', ''q2''), (''r'', ''r2'')]
       [''c''] Null"

definition groupFourStore :: TreeStore where
  "groupFourStore =
     \<lparr>rootPtr = Some ''p'',
      leftPtr = (\<lambda>n. None)(''q'' := Some ''r''),
      rightPtr = (\<lambda>n. None)(''p'' := Some ''c'', ''c'' := Some ''q'')\<rparr>"

text \<open>
  A pair whose representative \<open>e\<close> is 1 by 4 and whose partner \<open>e2\<close> is 4 by 1, so that the
  partner has to be rotated; and the states after one and after two calls of \<open>pack\<close>.
\<close>

definition groupRotating :: ASFBStarTree where
  "groupRotating =
     newEngine [(''e'', newModule 1 4), (''e2'', newModule 4 1)]
       VERTICAL [''e''] [(''e'', ''e2'')] [] (Node ''e'' Null Null)"

definition groupRotatingOnce :: ASFBStarTree where
  "groupRotatingOnce =
     \<lparr>modules = [(''e'', placed 1 4 0 0),
                 (''e2'', \<lparr>getWidth = 1, getHeight = 4, getX = 4, getY = 0, getRotated = True\<rparr>)],
      symmetryType = VERTICAL, groupAxisPosition = 9 / 4, representativeModules = [''e''],
      repToPairMap = [(''e'', ''e2'')], selfSymmetricModules = [],
      root = Node ''e'' Null Null, contourHead = [(0, 4), (1, 0)],
      symmetryAxisPosition = 9 / 4, preorderTraversal = [''e''], inorderTraversal = [''e'']\<rparr>"

definition groupRotatingTwice :: ASFBStarTree where
  "groupRotatingTwice =
     groupRotatingOnce\<lparr>modules := [(''e'', placed 1 4 0 0), (''e2'', placed 1 4 3 0)],
                        groupAxisPosition := 2, symmetryAxisPosition := 2\<rparr>"

section \<open>Settled groups and agreeing tables\<close>

text \<open>
  Two entries of the module table agree apart from the position, which has to be the
  same only for the names in \<open>P\<close>, and the rotation flag, which has to be the same only
  for the names in \<open>F\<close>; two tables agree when their entries do, one by one.
\<close>

definition entryAgrees ::
  "string set \<Rightarrow> string set \<Rightarrow> string \<times> Module \<Rightarrow> string \<times> Module \<Rightarrow> bool" where
  "entryAgrees P F e1 e2 \<longleftrightarrow>
     fst e1 = fst e2
     \<and> getWidth (snd e1) = getWidth (snd e2) \<and> getHeight (snd e1) = getHeight (snd e2)
     \<and> (fst e1 \<in> P \<longrightarrow> getX (snd e1) = getX (snd e2) \<and> getY (snd e1) = getY (snd e2))
     \<and> (fst e1 \<in> F \<longrightarrow> getRotated (snd e1) = getRotated (snd e2))"

definition agree :: "string set \<Rightarrow> string set \<Rightarrow> ModuleTable \<Rightarrow> ModuleTable \<Rightarrow> bool" where
  "agree P F t1 t2 = list_all2 (entryAgrees P F) t1 t2"

fun topName :: "BStarNode \<Rightarrow> string set" where
  "topName Null = {}"
| "topName (Node n l r) = {n}"

text \<open>The names below the nodes of the queue: the modules the loop has still to place.\<close>

fun namesBelow :: "BStarNode \<Rightarrow> string set" where
  "namesBelow Null = {}"
| "namesBelow (Node n l r) = set (preorder l) \<union> set (preorder r)"

definition queueBelow :: "(BStarNode \<times> int \<times> int) list \<Rightarrow> string set" where
  "queueBelow q = (\<Union>e \<in> set q. namesBelow (fst e))"

text \<open>
  A group in which \<open>pack\<close> has nothing to rotate: the tree holds every representative,
  the self-symmetric modules and the representatives of the pairs are representatives, no
  partner is a node of the tree, and no pair asks for its partner to be rotated.
\<close>

definition noRotationNeeded :: "ModuleTable \<Rightarrow> string \<times> string \<Rightarrow> bool" where
  "noRotationNeeded tbl pr =
     (case (map_of tbl (fst pr), map_of tbl (snd pr)) of
        (Some repModule, Some symModule) \<Rightarrow> \<not> needsRotation repModule symModule
      | _ \<Rightarrow> True)"

definition settledGroup :: "ASFBStarTree \<Rightarrow> bool" where
  "settledGroup s \<longleftrightarrow>
     set (representativeModules s) \<subseteq> set (preorder (root s))
     \<and> set (selfSymmetricModules s) \<subseteq> set (representativeModules s)
     \<and> fst ` set (repToPairMap s) \<subseteq> set (representativeModules s)
     \<and> snd ` set (repToPairMap s) \<inter> set (preorder (root s)) = {}
     \<and> list_all (noRotationNeeded (modules s)) (repToPairMap s)"

text \<open>Two engine states with the same group and the same tree.\<close>

definition sameGroup :: "ASFBStarTree \<Rightarrow> ASFBStarTree \<Rightarrow> bool" where
  "sameGroup s1 s2 \<longleftrightarrow>
     symmetryType s1 = symmetryType s2
     \<and> representativeModules s1 = representativeModules s2
     \<and> repToPairMap s1 = repToPairMap s2
     \<and> selfSymmetricModules s1 = selfSymmetricModules s2
     \<and> root s1 = root s2
     \<and> preorderTraversal s1 = preorderTraversal s2
     \<and> inorderTraversal s1 = inorderTraversal s2"

section \<open>Sortedness of the contour\<close>

lemma removeCovered_sorted:
  assumes "sorted_wrt (<) (map fst (kept @ cur))"
    and "\<forall>d \<in> set kept. fst d < right"
    and "removeCovered right topY kept cur = (kept', cur')"
  shows "sorted_wrt (<) (map fst (kept' @ cur')) \<and> (\<forall>d \<in> set kept'. fst d < right)
         \<and> (\<forall>q \<in> set cur'. right \<le> fst q) \<and> (kept \<noteq> [] \<longrightarrow> kept' \<noteq> [])"
  using assms
proof (induction right topY kept cur arbitrary: kept' cur' rule: removeCovered.induct)
  case (1 right topY kept)
  then show ?case by simp
next
  case (2 right topY kept p ps)
  show ?case
  proof (cases "fst p < right")
    case False
    have "\<forall>q \<in> set (p # ps). right \<le> fst q"
      using False "2.prems"(1) by (auto simp: sorted_wrt_append)
    with False "2.prems" show ?thesis by auto
  next
    case inside: True
    show ?thesis
    proof (cases "snd p \<le> topY")
      case True
      have s: "sorted_wrt (<) (map fst (kept @ ps))"
        using "2.prems"(1) by (auto simp: sorted_wrt_append)
      have r: "removeCovered right topY kept ps = (kept', cur')"
        using "2.prems"(3) inside True by simp
      show ?thesis
        using "2.IH"(1)[OF inside True s "2.prems"(2) r] .
    next
      case False
      have s: "sorted_wrt (<) (map fst ((kept @ [p]) @ ps))"
        using "2.prems"(1) by simp
      have b: "\<forall>d \<in> set (kept @ [p]). fst d < right"
        using "2.prems"(2) inside by auto
      have r: "removeCovered right topY (kept @ [p]) ps = (kept', cur')"
        using "2.prems"(3) inside False by simp
      show ?thesis
        using "2.IH"(2)[OF inside False s b r] by auto
    qed
  qed
qed

lemma takeWhile_dropWhile_less:
  assumes "sorted_wrt (<) (map fst c)"
  shows "(\<forall>p \<in> set (takeWhile (\<lambda>p. fst p < x) c). fst p < x)
       \<and> (\<forall>q \<in> set (dropWhile (\<lambda>p. fst p < (x::int)) c). x \<le> fst q)"
proof -
  have "\<forall>q \<in> set (dropWhile (\<lambda>p. fst p < x) c). x \<le> fst q"
    using assms
  proof (induction c)
    case Nil
    then show ?case by simp
  next
    case (Cons a c)
    then show ?case by (auto simp: not_less)
  qed
  then show ?thesis by (auto dest: set_takeWhileD)
qed

lemma leftEdge_sorted:
  assumes "sorted_wrt (<) (map fst (pre @ cur))"
    and "\<forall>p \<in> set pre. fst p < x"
    and "\<forall>q \<in> set cur. x \<le> fst q"
    and "x < right"
    and "leftEdge x topY pre cur = (kept, cur')"
  shows "sorted_wrt (<) (map fst (kept @ cur')) \<and> (\<forall>d \<in> set kept. fst d < right)"
proof -
  have pre_right: "\<forall>p \<in> set pre. fst p < right"
    using assms(2,4) by fastforce
  show ?thesis
  proof (cases cur)
    case Nil
    with assms pre_right show ?thesis
      by (auto simp: leftEdge_def sorted_wrt_append)
  next
    case (Cons p ps)
    with assms pre_right show ?thesis
      by (auto simp: leftEdge_def sorted_wrt_append split: if_splits; force)
  qed
qed

lemma rightEdge_sorted:
  assumes "sorted_wrt (<) (map fst (kept @ cur))"
    and "\<forall>d \<in> set kept. fst d < right"
    and "\<forall>q \<in> set cur. right \<le> fst q"
  shows "sorted_wrt (<) (map fst (rightEdge right kept cur))"
proof (cases cur)
  case Nil
  with assms show ?thesis
    by (auto simp: rightEdge_def sorted_wrt_append)
next
  case (Cons p ps)
  with assms show ?thesis
    by (auto simp: rightEdge_def sorted_wrt_append; force)
qed

text \<open>
  Claim C7. \<open>updateContour\<close> keeps the contour strictly increasing in \<open>x\<close>: from a contour
  whose points are strictly increasing in \<open>x\<close>, inserting a rectangle of positive width gives
  a contour whose points are strictly increasing in \<open>x\<close> again.
\<close>

theorem updateContour_strictlySorted:
  assumes "strictlySorted c" and "0 < width"
  shows "strictlySorted (updateContour x y width height c)"
proof (cases "c = []")
  case True
  with assms(2) show ?thesis
    by (simp add: updateContour_def strictlySorted_def Let_def)
next
  case False
  define pre where "pre = takeWhile (\<lambda>p. fst p < x) c"
  define cur where "cur = dropWhile (\<lambda>p. fst p < x) c"
  obtain k1 c1 where le: "leftEdge x (y + height) pre cur = (k1, c1)"
    by (cases "leftEdge x (y + height) pre cur")
  obtain k2 c2 where rc: "removeCovered (x + width) (y + height) k1 c1 = (k2, c2)"
    by (cases "removeCovered (x + width) (y + height) k1 c1")
  have srt: "sorted_wrt (<) (map fst (pre @ cur))"
    using assms(1) by (simp add: strictlySorted_def pre_def cur_def)
  have bounds: "(\<forall>p \<in> set pre. fst p < x) \<and> (\<forall>q \<in> set cur. x \<le> fst q)"
    unfolding pre_def cur_def
    using takeWhile_dropWhile_less[of c x] assms(1) by (simp add: strictlySorted_def)
  have xr: "x < x + width"
    using assms(2) by simp
  have mid_ok: "sorted_wrt (<) (map fst (k1 @ c1)) \<and> (\<forall>d \<in> set k1. fst d < x + width)"
    using leftEdge_sorted[OF srt _ _ xr le] bounds by blast
  have fin_ok: "sorted_wrt (<) (map fst (k2 @ c2)) \<and> (\<forall>d \<in> set k2. fst d < x + width)
         \<and> (\<forall>q \<in> set c2. x + width \<le> fst q)"
    using removeCovered_sorted[OF _ _ rc] mid_ok by blast
  have res: "updateContour x y width height c = rightEdge (x + width) k2 c2"
    using False le rc
    by (simp add: updateContour_def Let_def pre_def[symmetric] cur_def[symmetric])
  show ?thesis
    unfolding strictlySorted_def res
    using rightEdge_sorted fin_ok by blast
qed

theorem updateContour_strictlySorted_witness:
  "strictlySorted [(0, 2), (4, 0)] \<and> (0::int) < 3
   \<and> updateContour 2 2 3 1 [(0, 2), (4, 0)] = [(0, 2), (2, 3), (5, 3)]
   \<and> strictlySorted (updateContour 2 2 3 1 [(0, 2), (4, 0)])"
proof -
  have h: "strictlySorted [(0, 2), (4, 0)]"
    by (simp add: strictlySorted_def)
  have w: "(0::int) < 3" by simp
  have e: "updateContour 2 2 3 1 [(0, 2), (4, 0)] = [(0, 2), (2, 3), (5, 3)]"
    by (simp add: updateContour_def leftEdge_def rightEdge_def heightOfPrev_def)
  show ?thesis
    using h w e updateContour_strictlySorted[OF h w, of 2 2 1] by simp
qed

section \<open>Evaluating concrete runs\<close>

lemma DBL_MIN_bounds: "0 < DBL_MIN \<and> DBL_MIN < 1 / 4"
  by (simp add: DBL_MIN_def)

lemma max_DBL_MIN: "1 / 4 \<le> q \<Longrightarrow> max DBL_MIN q = q"
  using DBL_MIN_bounds by simp

lemma DBL_MIN_neq: "1 / 4 \<le> q \<Longrightarrow> (q = DBL_MIN) = False"
  using DBL_MIN_bounds by auto

lemma floor_numeral_quotient:
  "\<lfloor>(numeral a :: rat) / numeral b\<rfloor> = numeral a div numeral b"
  "\<lfloor>- (numeral a :: rat) / numeral b\<rfloor> = - numeral a div numeral b"
  using floor_divide_of_int_eq[of "numeral a" "numeral b", where ?'a = rat]
    floor_divide_of_int_eq[of "- numeral a" "numeral b", where ?'a = rat]
  by simp_all

lemma floor_one_quotient:
  "\<lfloor>(1 :: rat) / numeral b\<rfloor> = 1 div numeral b"
  "\<lfloor>- (1 :: rat) / numeral b\<rfloor> = - 1 div numeral b"
  using floor_divide_of_int_eq[of 1 "numeral b", where ?'a = rat]
    floor_divide_of_int_eq[of "- 1" "numeral b", where ?'a = rat]
  by simp_all

lemma ceiling_one_quotient:
  "\<lceil>(1 :: rat) / numeral b\<rceil> = - (- 1 div numeral b)"
  "\<lceil>- (1 :: rat) / numeral b\<rceil> = - (1 div numeral b)"
  using floor_one_quotient[of b] by (simp_all add: ceiling_def)

lemma ceiling_numeral_quotient:
  "\<lceil>(numeral a :: rat) / numeral b\<rceil> = - (- numeral a div numeral b)"
  "\<lceil>- (numeral a :: rat) / numeral b\<rceil> = - (numeral a div numeral b)"
  using floor_numeral_quotient[of a b] by (simp_all add: ceiling_def)

lemmas contour_eval = updateContour_def leftEdge_def rightEdge_def heightOfPrev_def
  hasContourOverlap_def upto.simps

lemmas packing_eval = placeRoot_def clearContour_def packBStarTree_def processLeft_def
  processRight_def updateModule_def setPosition_def

lemmas compaction_eval = compactPlacement_def compactedPositions_def shiftToOrigin_def minXOf_def minYOf_def
  INT_MAX_def compactInX_def compactInY_def maxLeftShiftOf_def maxDownShiftOf_def pairAt_def
  shiftLeft_def shiftDown_def writeBack_def Let_def

lemmas axis_eval = calculateSymmetryAxisPosition_def computedAxis_def maxRepEdge_def minAxisOver_def
  layoutMax_def maxSelfSymExtent_def axisCoord_def axisExtent_def addBuffer_def INT_MIN_def
  max_DBL_MIN DBL_MIN_neq

lemmas projection_eval = updateSymmetricModulePositions_def projectPair_def needsRotation_def
  centreSelfSymmetric_def centredCoord_def roundToInt_def rotate_def setRotation_def
  floor_numeral_quotient ceiling_numeral_quotient floor_one_quotient ceiling_one_quotient

lemmas validation_eval = validateSymmetry_def hasNegativeCoord_def pairViolation_def
  selfViolation_def

lemmas group_eval = newEngine_def newModule_def placed_def

lemma pack_groupSelfRoot:
  "pack getContourHeight groupSelfRoot = Some (True, groupSelfRootPacked)"
proof -
  have a: "packBStarTree getContourHeight
      (groupSelfRoot\<lparr>preorderTraversal := [''c'', ''d''], inorderTraversal := [''d'', ''c'']\<rparr>)
    = Some (groupSelfRoot\<lparr>preorderTraversal := [''c'', ''d''], inorderTraversal := [''d'', ''c''],
        contourHead := [(0, 2), (6, 2), (8, 2)],
        modules := [(''c'', placed 6 2 0 0), (''d'', placed 2 2 6 0), (''d2'', placed 2 2 0 0)]\<rparr>)"
    by (simp add: groupSelfRoot_def group_eval contour_eval packing_eval compaction_eval)
  have b: "calculateSymmetryAxisPosition
      (groupSelfRoot\<lparr>preorderTraversal := [''c'', ''d''], inorderTraversal := [''d'', ''c''],
        contourHead := [(0, 2), (6, 2), (8, 2)],
        modules := [(''c'', placed 6 2 0 0), (''d'', placed 2 2 6 0), (''d2'', placed 2 2 0 0)]\<rparr>)
    = Some (groupSelfRootPacked\<lparr>modules :=
          [(''c'', placed 6 2 0 0), (''d'', placed 2 2 6 0), (''d2'', placed 2 2 0 0)]\<rparr>)"
    by (simp add: groupSelfRoot_def groupSelfRootPacked_def group_eval axis_eval)
  have c: "updateSymmetricModulePositions (groupSelfRootPacked\<lparr>modules :=
          [(''c'', placed 6 2 0 0), (''d'', placed 2 2 6 0), (''d2'', placed 2 2 0 0)]\<rparr>)
    = Some groupSelfRootPacked"
    by (simp add: groupSelfRootPacked_def group_eval projection_eval axis_eval updateModule_def
        setPosition_def)
  have d: "validateSymmetry groupSelfRootPacked"
    by (simp add: groupSelfRootPacked_def group_eval validation_eval)
  have e: "preorder (root groupSelfRoot) = [''c'', ''d''] \<and> inorder (root groupSelfRoot) = [''d'', ''c'']"
    by (simp add: groupSelfRoot_def group_eval)
  show ?thesis
    unfolding pack_def Let_def using a b c d e by simp
qed

section \<open>What a successful pack guarantees\<close>

lemma pack_validated:
  assumes "pack hgt s = Some (b, s')"
  shows "b = validateSymmetry s'"
  using assms by (auto simp: pack_def Let_def split: option.splits if_splits)

text \<open>
  Claim C3. When \<open>pack\<close> returns true, every module of the table has a non-negative \<open>x\<close>
  and a non-negative \<open>y\<close>; a negative final coordinate makes \<open>pack\<close> return false.
\<close>

theorem pack_true_nonnegative:
  assumes "pack hgt s = Some (True, s')" and "(name, m) \<in> set (modules s')"
  shows "0 \<le> getX m \<and> 0 \<le> getY m"
proof -
  have "validateSymmetry s'"
    using pack_validated[OF assms(1)] by simp
  then have "\<not> list_ex hasNegativeCoord (modules s')"
    by (auto simp: validateSymmetry_def split: if_splits)
  then have "\<not> hasNegativeCoord (name, m)"
    using assms(2) by (auto simp: list_ex_iff)
  then show ?thesis
    by (simp add: hasNegativeCoord_def not_less)
qed

theorem pack_true_nonnegative_witness:
  "pack getContourHeight groupSelfRoot = Some (True, groupSelfRootPacked)
   \<and> (''d2'', placed 2 2 10 0) \<in> set (modules groupSelfRootPacked)
   \<and> 0 \<le> getX (placed 2 2 10 0) \<and> 0 \<le> getY (placed 2 2 10 0)"
proof -
  have m: "(''d2'', placed 2 2 10 0) \<in> set (modules groupSelfRootPacked)"
    by (simp add: groupSelfRootPacked_def)
  show ?thesis
    using pack_groupSelfRoot m pack_true_nonnegative[OF pack_groupSelfRoot m] by simp
qed

text \<open>
  Claim C1, as stated, fails: \<open>pack\<close> runs no overlap check. For the group with the
  self-symmetric root \<open>c\<close> it returns true, and the final rectangles of \<open>c\<close> and \<open>d\<close>
  (and of \<open>c\<close> and \<open>d2\<close>) overlap.
\<close>

theorem pack_true_with_overlap:
  "pack getContourHeight groupSelfRoot = Some (True, groupSelfRootPacked)
   \<and> \<not> overlapFree (modules groupSelfRootPacked)
   \<and> interiorsOverlap (placed 6 2 6 0) (placed 2 2 6 0)"
  using pack_groupSelfRoot
  by (simp add: groupSelfRootPacked_def interiorsOverlap_def placed_def)

text \<open>
  Claim C1, amended. The boolean that \<open>pack\<close> returns is the outcome of the three loops of
  \<open>validateSymmetry\<close> on the final placement and of nothing else: it is true exactly when no
  module has a negative coordinate, no pair present in the table violates the mirror
  equation or the alignment by more than 1, and no self-symmetric module present in the
  table has its centre more than 1 away from the axis. Overlap of interiors is not examined.
\<close>

theorem pack_true_iff_symmetry_checks:
  assumes "pack hgt s = Some (b, s')"
  shows "b \<longleftrightarrow>
           (\<forall>e \<in> set (modules s'). 0 \<le> getX (snd e) \<and> 0 \<le> getY (snd e))
         \<and> (\<forall>pr \<in> set (repToPairMap s'). \<not> pairViolation s' pr)
         \<and> (\<forall>moduleName \<in> set (selfSymmetricModules s'). \<not> selfViolation s' moduleName)"
proof -
  have b: "b = validateSymmetry s'"
    using pack_validated[OF assms] .
  have v: "validateSymmetry s' \<longleftrightarrow>
      \<not> list_ex hasNegativeCoord (modules s')
      \<and> \<not> list_ex (pairViolation s') (repToPairMap s')
      \<and> \<not> list_ex (selfViolation s') (selfSymmetricModules s')"
    by (simp add: validateSymmetry_def)
  have n: "\<not> list_ex hasNegativeCoord (modules s') \<longleftrightarrow>
      (\<forall>e \<in> set (modules s'). 0 \<le> getX (snd e) \<and> 0 \<le> getY (snd e))"
    unfolding list_ex_iff hasNegativeCoord_def by (meson not_less)
  show ?thesis
    unfolding b v n by (simp add: list_ex_iff)
qed

theorem pack_true_iff_symmetry_checks_witness:
  "pack getContourHeight groupSelfRoot = Some (True, groupSelfRootPacked)
   \<and> list_all (\<lambda>e. 0 \<le> getX (snd e) \<and> 0 \<le> getY (snd e)) (modules groupSelfRootPacked)
   \<and> list_all (\<lambda>pr. \<not> pairViolation groupSelfRootPacked pr) (repToPairMap groupSelfRootPacked)
   \<and> list_all (\<lambda>moduleName. \<not> selfViolation groupSelfRootPacked moduleName)
         (selfSymmetricModules groupSelfRootPacked)"
  using pack_groupSelfRoot pack_true_iff_symmetry_checks[OF pack_groupSelfRoot]
  unfolding list_all_iff by blast

section \<open>The frame of compaction\<close>

lemma map_fst_updateModule: "map fst (updateModule name f tbl) = map fst tbl"
  by (induction tbl) (auto simp: updateModule_def)

lemma map_of_updateModule:
  "map_of (updateModule name f tbl) k
     = (if k = name then map_option f (map_of tbl k) else map_of tbl k)"
  by (induction tbl) (auto simp: updateModule_def)

lemma filter_updateModule:
  "name \<in> A \<Longrightarrow> filter (\<lambda>e. fst e \<notin> A) (updateModule name f tbl) = filter (\<lambda>e. fst e \<notin> A) tbl"
  by (induction tbl) (auto simp: updateModule_def split: if_splits)

lemma filter_writeBack:
  "fst ` set positions \<subseteq> A \<Longrightarrow>
     filter (\<lambda>e. fst e \<notin> A) (writeBack positions tbl) = filter (\<lambda>e. fst e \<notin> A) tbl"
proof (induction positions arbitrary: tbl)
  case Nil
  then show ?case by (simp add: writeBack_def)
next
  case (Cons p positions)
  obtain n px py where p: "p = (n, px, py)" by (cases p)
  have n: "n \<in> A" using Cons.prems p by simp
  have "writeBack (p # positions) tbl
        = writeBack positions (updateModule n (setPosition px py) tbl)"
    by (simp add: writeBack_def p)
  then show ?case
    using Cons.IH[of "updateModule n (setPosition px py) tbl"] Cons.prems
      filter_updateModule[OF n] by simp
qed

lemma map_fst_collectRepresentatives:
  "collectRepresentatives tbl names = Some (positions, dimensions) \<Longrightarrow>
     map fst positions = names \<and> map fst dimensions = names"
  by (induction names arbitrary: positions dimensions) (auto split: option.splits)

lemma map_fst_shiftToOrigin: "map fst (shiftToOrigin positions) = map fst positions"
  by (auto simp: shiftToOrigin_def Let_def)

lemma map_fst_shiftLeft: "map fst (shiftLeft name d positions) = map fst positions"
  by (induction positions) (auto simp: shiftLeft_def)

lemma map_fst_shiftDown: "map fst (shiftDown name d positions) = map fst positions"
  by (induction positions) (auto simp: shiftDown_def)

lemma map_fst_compactXLoop:
  "map fst (compactXLoop dimensions visited rest positions) = map fst positions"
  by (induction dimensions visited rest positions rule: compactXLoop.induct)
     (simp_all add: Let_def map_fst_shiftLeft)

lemma map_fst_compactYLoop:
  "map fst (compactYLoop dimensions visited rest positions) = map fst positions"
  by (induction dimensions visited rest positions rule: compactYLoop.induct)
     (simp_all add: Let_def map_fst_shiftDown)

lemma map_fst_compactInX: "map fst (compactInX dimensions positions) = map fst positions"
  by (simp add: compactInX_def map_fst_compactXLoop split: list.splits)

lemma map_fst_compactInY: "map fst (compactInY dimensions positions) = map fst positions"
  by (simp add: compactInY_def map_fst_compactYLoop split: list.splits)

lemma map_of_filter_keys:
  "k \<notin> A \<Longrightarrow> map_of (filter (\<lambda>e. fst e \<notin> A) tbl) k = map_of tbl k"
  by (induction tbl) auto

text \<open>
  What \<open>compactPlacement\<close> does to the table: the working positions, whose names are the
  representatives, are written back.
\<close>

lemma compactPlacement_writes:
  assumes "compactPlacement s = Some s'"
  shows "\<exists>positions. map fst positions = representativeModules s
           \<and> s' = s\<lparr>modules := writeBack positions (modules s)\<rparr>"
proof -
  obtain p0 d0 where c: "collectRepresentatives (modules s) (representativeModules s) = Some (p0, d0)"
    using assms by (auto simp: compactPlacement_def split: option.splits)
  define p2 where "p2 = compactedPositions (symmetryType s) d0 p0"
  have s': "s' = s\<lparr>modules := writeBack p2 (modules s)\<rparr>"
    using assms c by (auto simp: compactPlacement_def Let_def p2_def)
  have "map fst p2 = map fst p0"
    by (simp add: p2_def compactedPositions_def Let_def map_fst_compactInX map_fst_compactInY
        map_fst_shiftToOrigin)
  then have "map fst p2 = representativeModules s"
    using map_fst_collectRepresentatives[OF c] by simp
  with s' show ?thesis by blast
qed

text \<open>
  Claim C10. \<open>compactPlacement\<close> writes only the modules named in
  \<open>representativeModules\<close>: the entries of all other names are the same after it as before,
  so every module that is not a representative keeps its \<open>x\<close> and \<open>y\<close>.
\<close>

theorem compactPlacement_frame:
  assumes "compactPlacement s = Some s'"
  shows "filter (\<lambda>e. fst e \<notin> set (representativeModules s)) (modules s')
           = filter (\<lambda>e. fst e \<notin> set (representativeModules s)) (modules s)
         \<and> (\<forall>name. name \<notin> set (representativeModules s)
               \<longrightarrow> map_of (modules s') name = map_of (modules s) name)"
proof -
  obtain positions where keys: "map fst positions = representativeModules s"
    and s': "s' = s\<lparr>modules := writeBack positions (modules s)\<rparr>"
    using compactPlacement_writes[OF assms] by blast
  have sub: "fst ` set positions \<subseteq> set (representativeModules s)"
    using keys by (metis set_map subset_refl)
  have f: "filter (\<lambda>e. fst e \<notin> set (representativeModules s)) (modules s')
           = filter (\<lambda>e. fst e \<notin> set (representativeModules s)) (modules s)"
    using filter_writeBack[OF sub] s' by simp
  have "map_of (modules s') name = map_of (modules s) name"
    if "name \<notin> set (representativeModules s)" for name
    using map_of_filter_keys[OF that, of "modules s'"] map_of_filter_keys[OF that, of "modules s"] f
    by simp
  with f show ?thesis by blast
qed

theorem compactPlacement_frame_witness:
  "compactPlacement groupShifted
     = Some (groupShifted\<lparr>modules := [(''a'', placed 2 2 0 0), (''a2'', placed 2 2 7 1)]\<rparr>)
   \<and> ''a2'' \<notin> set (representativeModules groupShifted)
   \<and> map_of (modules (groupShifted\<lparr>modules := [(''a'', placed 2 2 0 0), (''a2'', placed 2 2 7 1)]\<rparr>)) ''a2''
       = map_of (modules groupShifted) ''a2''"
proof -
  have run: "compactPlacement groupShifted
     = Some (groupShifted\<lparr>modules := [(''a'', placed 2 2 0 0), (''a2'', placed 2 2 7 1)]\<rparr>)"
    by (simp add: groupShifted_def group_eval compaction_eval updateModule_def setPosition_def)
  have "''a2'' \<notin> set (representativeModules groupShifted)"
    by (simp add: groupShifted_def group_eval)
  with run compactPlacement_frame[OF run] show ?thesis by blast
qed

section \<open>The translation step of compaction\<close>

text \<open>
  Claim C8 holds of the source's comments, not of its guard: the shift is applied only when
  a minimum is positive. For the group whose only representative stands at \<open>(-1, -1)\<close> the
  step changes nothing, the minima stay at \<open>-1\<close>, and \<open>compactPlacement\<close> leaves the module
  where it was.
\<close>

theorem compactPlacement_keeps_negative:
  "shiftToOrigin [(''a'', - 1, - 1)] = [(''a'', - 1, - 1)]
   \<and> minXOf (shiftToOrigin [(''a'', - 1, - 1)]) = - 1
   \<and> minYOf (shiftToOrigin [(''a'', - 1, - 1)]) = - 1
   \<and> compactPlacement groupNegative = Some groupNegative"
  by (simp add: groupNegative_def group_eval compaction_eval updateModule_def setPosition_def)

section \<open>Centring the self-symmetric modules\<close>

lemma roundToInt_error: "\<bar>of_int (roundToInt v) - v\<bar> \<le> 1 / 2"
proof (cases "0 \<le> v")
  case True
  have "of_int \<lfloor>v + 1 / 2\<rfloor> \<le> v + 1 / 2" "v + 1 / 2 < of_int \<lfloor>v + 1 / 2\<rfloor> + 1"
    by linarith+
  moreover from True have "roundToInt v = \<lfloor>v + 1 / 2\<rfloor>"
    by (simp add: roundToInt_def)
  ultimately show ?thesis by linarith
next
  case False
  have "v - 1 / 2 \<le> of_int \<lceil>v - 1 / 2\<rceil>" "of_int \<lceil>v - 1 / 2\<rceil> < v - 1 / 2 + 1"
    by linarith+
  moreover from False have "roundToInt v = \<lceil>v - 1 / 2\<rceil>"
    by (simp add: roundToInt_def)
  ultimately show ?thesis by linarith
qed

lemma centredCoord_error:
  "\<bar>of_int (centredCoord axis w) + of_int w / 2 - axis\<bar> \<le> 1 / 2"
proof -
  define e where "e = axis - of_int w / 2"
  have r: "\<bar>of_int (roundToInt e) + of_int w / 2 - axis\<bar> \<le> 1 / 2"
    using roundToInt_error[of e] by (simp add: e_def algebra_simps)
  show ?thesis
    using r unfolding centredCoord_def Let_def e_def[symmetric]
    by (auto split: if_splits)
qed

text \<open>
  The loop over the self-symmetric names: a name that the loop has visited ends within 1/2
  of the axis, and later passes do not disturb it.
\<close>

lemma foldOption_centreSelfSymmetric:
  assumes "foldOption (centreSelfSymmetric ty axis) names tbl = Some tbl'"
    and "moduleName \<in> set names \<or> (\<forall>m. map_of tbl moduleName = Some m \<longrightarrow>
           \<bar>of_int (axisCoord ty m) + of_int (axisExtent ty m) / 2 - axis\<bar> \<le> 1 / 2)"
    and "map_of tbl' moduleName = Some m'"
  shows "\<bar>of_int (axisCoord ty m') + of_int (axisExtent ty m') / 2 - axis\<bar> \<le> 1 / 2"
  using assms
proof (induction names arbitrary: tbl)
  case Nil
  then show ?case by simp
next
  case (Cons n names)
  obtain m where m: "map_of tbl n = Some m"
    using Cons.prems(1) by (auto simp: centreSelfSymmetric_def split: option.splits)
  define f where "f = (if ty = VERTICAL
                       then setPosition (centredCoord axis (axisExtent ty m)) (getY m)
                       else setPosition (getX m) (centredCoord axis (axisExtent ty m)))"
  define tbl1 where "tbl1 = updateModule n f tbl"
  have step: "centreSelfSymmetric ty axis n tbl = Some tbl1"
    by (simp add: centreSelfSymmetric_def m tbl1_def f_def Let_def)
  have rest: "foldOption (centreSelfSymmetric ty axis) names tbl1 = Some tbl'"
    using Cons.prems(1) step by simp
  have fm: "\<bar>of_int (axisCoord ty (f m)) + of_int (axisExtent ty (f m)) / 2 - axis\<bar> \<le> 1 / 2"
    using centredCoord_error[of axis "axisExtent ty m"]
    by (cases "ty = VERTICAL") (simp_all add: f_def axisCoord_def axisExtent_def setPosition_def)
  have inv: "moduleName \<in> set names \<or> (\<forall>m. map_of tbl1 moduleName = Some m \<longrightarrow>
           \<bar>of_int (axisCoord ty m) + of_int (axisExtent ty m) / 2 - axis\<bar> \<le> 1 / 2)"
  proof (cases "moduleName = n")
    case True
    then show ?thesis using fm m by (simp add: tbl1_def map_of_updateModule)
  next
    case False
    then show ?thesis using Cons.prems(2) by (auto simp: tbl1_def map_of_updateModule)
  qed
  show ?case
    using Cons.IH[OF rest inv Cons.prems(3)] .
qed

lemma calculateSymmetryAxisPosition_fields:
  assumes "calculateSymmetryAxisPosition s = Some s1"
  shows "s1 = s\<lparr>symmetryAxisPosition := symmetryAxisPosition s1,
                groupAxisPosition := symmetryAxisPosition s1\<rparr>"
  using assms by (auto simp: calculateSymmetryAxisPosition_def split: option.splits)

text \<open>
  Claim C5. After \<open>updateSymmetricModulePositions\<close> on a VERTICAL group, every
  self-symmetric module has its centre \<open>x + width / 2\<close> within 0.5 of the axis.
\<close>

theorem selfSymmetric_centre_residual:
  assumes "updateSymmetricModulePositions s = Some s'"
    and "symmetryType s = VERTICAL"
    and "moduleName \<in> set (selfSymmetricModules s)"
    and "map_of (modules s') moduleName = Some m"
  shows "\<bar>of_int (getX m) + of_int (getWidth m) / 2 - symmetryAxisPosition s'\<bar> \<le> 1 / 2"
proof -
  obtain s1 where s1: "(if symmetryAxisPosition s < 0 then calculateSymmetryAxisPosition s
                        else Some s) = Some s1"
    using assms(1) by (auto simp: updateSymmetricModulePositions_def split: option.splits)
  have same: "symmetryType s1 = symmetryType s \<and> selfSymmetricModules s1 = selfSymmetricModules s"
  proof (cases "symmetryAxisPosition s < 0")
    case True
    with s1 have "calculateSymmetryAxisPosition s = Some s1" by simp
    from calculateSymmetryAxisPosition_fields[OF this] show ?thesis
      by (metis (no_types, lifting) ASFBStarTree.select_convs(2,6) ASFBStarTree.surjective
          ASFBStarTree.update_convs(3,9))
  next
    case False
    with s1 show ?thesis by simp
  qed
  obtain tbl1 where t1: "foldOption (projectPair (symmetryType s1) (symmetryAxisPosition s1))
                           (repToPairMap s1) (modules s1) = Some tbl1"
    using assms(1) s1 by (auto simp: updateSymmetricModulePositions_def split: option.splits)
  obtain tbl2 where t2: "foldOption (centreSelfSymmetric (symmetryType s1) (symmetryAxisPosition s1))
                           (selfSymmetricModules s1) tbl1 = Some tbl2"
    using assms(1) s1 t1 by (auto simp: updateSymmetricModulePositions_def split: option.splits)
  have s': "s' = s1\<lparr>modules := tbl2\<rparr>"
    using assms(1) s1 t1 t2 by (auto simp: updateSymmetricModulePositions_def)
  have m: "map_of tbl2 moduleName = Some m"
    using assms(4) s' by simp
  have "\<bar>of_int (axisCoord VERTICAL m) + of_int (axisExtent VERTICAL m) / 2
          - symmetryAxisPosition s1\<bar> \<le> 1 / 2"
    using foldOption_centreSelfSymmetric[OF t2 _ m] assms(2,3) same by simp
  then show ?thesis
    using s' by (simp add: axisCoord_def axisExtent_def)
qed

theorem selfSymmetric_centre_residual_witness:
  "updateSymmetricModulePositions groupOddSelf
     = Some (groupOddSelf\<lparr>modules := [(''c'', placed 3 2 1 0)]\<rparr>)
   \<and> symmetryType groupOddSelf = VERTICAL
   \<and> ''c'' \<in> set (selfSymmetricModules groupOddSelf)
   \<and> \<bar>of_int (getX (placed 3 2 1 0)) + of_int (getWidth (placed 3 2 1 0)) / 2 - 9 / 4\<bar> \<le> (1 / 2 :: rat)"
proof -
  have run: "updateSymmetricModulePositions groupOddSelf
     = Some (groupOddSelf\<lparr>modules := [(''c'', placed 3 2 1 0)]\<rparr>)"
    by (simp add: groupOddSelf_def group_eval projection_eval axis_eval updateModule_def
        setPosition_def)
  have ty: "symmetryType groupOddSelf = VERTICAL"
    and mem: "''c'' \<in> set (selfSymmetricModules groupOddSelf)"
    and look: "map_of (modules (groupOddSelf\<lparr>modules := [(''c'', placed 3 2 1 0)]\<rparr>)) ''c''
                = Some (placed 3 2 1 0)"
    and ax: "symmetryAxisPosition (groupOddSelf\<lparr>modules := [(''c'', placed 3 2 1 0)]\<rparr>) = 9 / 4"
    by (simp_all add: groupOddSelf_def group_eval)
  show ?thesis
    using run ty mem selfSymmetric_centre_residual[OF run ty mem look] ax by simp
qed

section \<open>Placing a left child\<close>

lemma hasContourOverlap_iff:
  "hasContourOverlap hgt c x y width height \<longleftrightarrow> (\<exists>currX \<in> {x..<x + width}. y < hgt c currX)"
proof -
  have "set [x..x + width - 1] = {x..<x + width}"
    by auto
  then show ?thesis
    by (simp add: hasContourOverlap_def Let_def list_ex_iff)
qed

text \<open>
  Claim C2, as stated, fails in its second half: when the contour over the child's interval
  exceeds the parent's \<open>y\<close>, the child is put at the contour height at the single
  coordinate \<open>x\<^sub>L\<close>, not at the maximum over the interval. In the packing of \<open>stairTree\<close>
  the loop reaches \<open>B\<close> (at \<open>(0, 1)\<close>) with the contour \<open>stairContour\<close>; its left child
  \<open>BL\<close> of width 3 is put at \<open>(1, 2)\<close>, while the maximum over \<open>[1, 4)\<close> is 5.
\<close>

theorem left_child_below_interval_maximum:
  "placeRoot (clearContour stairEngine)
     = Some ([(stairTree, 0, 0)], [(0, 1), (1, 0)], stairModules)
   \<and> bfsLoop getContourHeight ([(stairTree, 0, 0)], [(0, 1), (1, 0)], stairModules)
     = bfsLoop getContourHeight
         ((Node ''B'' (Node ''BL'' Null Null) Null, 0, 1) # stairQueue, stairContour, stairPlaced)
   \<and> map_option fst
        (processLeft getContourHeight ''B'' (Node ''BL'' Null Null) 0 1
           (stairQueue, stairContour, stairPlaced))
     = Some (stairQueue @ [(Node ''BL'' Null Null, 1, 2)])
   \<and> maxHeightOver getContourHeight stairContour 1 3 = 5
   \<and> \<not> maxHeightOver getContourHeight stairContour 1 3 \<le> 1"
  by (simp add: stairEngine_def stairTree_def stairModules_def stairQueue_def stairContour_def
      stairPlaced_def group_eval contour_eval packing_eval maxHeightOver_def)

text \<open>
  Claim C2, amended. A left child is placed at \<open>x\<^sub>L = parent.x + parent.width\<close>; at
  \<open>y\<^sub>L = parent.y\<close> when no integer coordinate of \<open>[x\<^sub>L, x\<^sub>L + w\<^sub>L)\<close> has a contour height
  above \<open>parent.y\<close>, and otherwise at the contour height at \<open>x\<^sub>L\<close>. The placement is
  stored in the module, entered into the contour and queued. This holds for every height
  query \<open>hgt\<close>.
\<close>

theorem processLeft_places_left_child:
  assumes "processLeft hgt nodeName (Node lName ll lr) nodeX nodeY (bfsQueue, c, tbl)
             = Some (bfsQueue', c', tbl')"
    and "map_of tbl nodeName = Some parent"
    and "map_of tbl lName = Some child"
  shows "let leftX = nodeX + getWidth parent;
             leftY = (if \<forall>currX \<in> {leftX..<leftX + getWidth child}. hgt c currX \<le> nodeY
                      then nodeY else hgt c leftX)
         in bfsQueue' = bfsQueue @ [(Node lName ll lr, leftX, leftY)]
            \<and> map_of tbl' lName = Some (setPosition leftX leftY child)
            \<and> c' = updateContour leftX leftY (getWidth child) (getHeight child) c"
proof -
  define leftX where "leftX = nodeX + getWidth parent"
  define leftY where "leftY = (if \<not> hasContourOverlap hgt c leftX nodeY (getWidth child) (getHeight child)
                               then nodeY else hgt c leftX)"
  have res: "bfsQueue' = bfsQueue @ [(Node lName ll lr, leftX, leftY)]
      \<and> tbl' = updateModule lName (setPosition leftX leftY) tbl
      \<and> c' = updateContour leftX leftY (getWidth child) (getHeight child) c"
    using assms by (auto simp: processLeft_def Let_def leftX_def leftY_def)
  have y: "leftY = (if \<forall>currX \<in> {leftX..<leftX + getWidth child}. hgt c currX \<le> nodeY
                    then nodeY else hgt c leftX)"
    unfolding leftY_def hasContourOverlap_iff by (auto simp: not_less)
  have "map_of tbl' lName = Some (setPosition leftX leftY child)"
    using res assms(3) by (simp add: map_of_updateModule)
  with res y show ?thesis
    unfolding Let_def leftX_def[symmetric] by simp
qed

theorem processLeft_places_left_child_witness:
  "processLeft getContourHeight ''A'' (Node ''L'' (Node ''LL'' Null Null) (Node ''LR'' Null Null)) 0 0
       ([], [(0, 1), (1, 0)], stairModules)
     = Some ([(Node ''L'' (Node ''LL'' Null Null) (Node ''LR'' Null Null), 1, 0)],
             [(0, 1), (1, 1), (2, 1)],
             updateModule ''L'' (setPosition 1 0) stairModules)
   \<and> map_of stairModules ''A'' = Some (newModule 1 1)
   \<and> map_of stairModules ''L'' = Some (newModule 1 1)
   \<and> map_of (updateModule ''L'' (setPosition 1 0) stairModules) ''L''
       = Some (setPosition 1 0 (newModule 1 1))"
proof -
  have run: "processLeft getContourHeight ''A''
       (Node ''L'' (Node ''LL'' Null Null) (Node ''LR'' Null Null)) 0 0
       ([], [(0, 1), (1, 0)], stairModules)
     = Some ([(Node ''L'' (Node ''LL'' Null Null) (Node ''LR'' Null Null), 1, 0)],
             [(0, 1), (1, 1), (2, 1)],
             updateModule ''L'' (setPosition 1 0) stairModules)"
    by (simp add: stairModules_def group_eval contour_eval packing_eval)
  have a: "map_of stairModules ''A'' = Some (newModule 1 1)"
    and l: "map_of stairModules ''L'' = Some (newModule 1 1)"
    by (simp_all add: stairModules_def)
  have flat: "(\<forall>currX \<in> {0 + getWidth (newModule 1 1)..<0 + getWidth (newModule 1 1)
                  + getWidth (newModule 1 1)}. getContourHeight [(0, 1), (1, 0)] currX \<le> 0)"
    by (simp add: newModule_def)
  show ?thesis
    using run a l flat processLeft_places_left_child[OF run a l]
    by (simp add: Let_def newModule_def)
qed

section \<open>The axis of a VERTICAL group with pairs\<close>













section \<open>The boundary branch of the initial tree\<close>

lemmas builder_eval = linkNodes_def buildInitialBStarTree_def isSelfSymmetric_def nodeMapAt_def
  boundarySide_def sortExtent_def emptyStore_def childPtr_def setChild_def attachFirst_def
  attachAt_def Let_def

lemma groupFour_built:
  "buildInitialBStarTree (\<lambda>t. True) (\<lambda>t. True) groupFour = Inr groupFourStore"
  by (simp add: groupFour_def groupFourStore_def group_eval builder_eval fun_upd_twist)

lemma childPtr_setChild:
  "childPtr (setChild side' c p t) side n
     = (if side = side' \<and> n = c then p else childPtr t side n)"
  by (cases side; cases side') (simp_all add: childPtr_def setChild_def)

lemma rootPtr_setChild: "rootPtr (setChild side c p t) = rootPtr t"
  by (cases side) (simp_all add: setChild_def)

text \<open>Filling a free slot keeps every node of a branch on its branch.\<close>

lemma onBranch_grow:
  assumes "onBranch t side n" and "childPtr t side' c = None"
  shows "onBranch (setChild side' c p t) side n"
  using assms
proof (induction rule: onBranch.induct)
  case (atRoot n)
  then show ?case by (simp add: onBranch.atRoot rootPtr_setChild)
next
  case (atChild m n)
  have "childPtr (setChild side' c p t) side m = Some n"
    using atChild.hyps(2) atChild.prems by (auto simp: childPtr_setChild)
  with atChild.IH[OF atChild.prems] show ?case
    by (rule onBranch.atChild)
qed

lemma chain_onBranch:
  assumes "chainSelfSymmetric side (nodeMapAt reps) names (Some cur, t) = Some (cur', t')"
    and "onBranch t side cur"
    and "childPtr t side cur = None"
    and "\<forall>n \<in> set names. childPtr t side n = None"
    and "distinct names"
    and "cur \<notin> set names"
  shows "(\<forall>n. onBranch t side n \<longrightarrow> onBranch t' side n)
       \<and> (\<forall>n \<in> set names. n \<in> set reps \<longrightarrow> onBranch t' side n)"
  using assms
proof (induction names arbitrary: cur t)
  case Nil
  then show ?case by simp
next
  case (Cons name names)
  define t1 where "t1 = setChild side cur (nodeMapAt reps name) t"
  have run: "chainSelfSymmetric side (nodeMapAt reps) names (nodeMapAt reps name, t1) = Some (cur', t')"
    using Cons.prems(1) by (simp add: t1_def)
  have grow: "onBranch t1 side n" if "onBranch t side n" for n
    unfolding t1_def using onBranch_grow[OF that Cons.prems(3)] .
  show ?case
  proof (cases "name \<in> set reps")
    case False
    then have nm: "nodeMapAt reps name = None" by (simp add: nodeMapAt_def)
    have "names = []"
    proof (cases names)
      case Nil
      then show ?thesis .
    next
      case (Cons a list)
      with run nm show ?thesis by simp
    qed
    with run nm have "t' = t1" by simp
    with grow False \<open>names = []\<close> show ?thesis by simp
  next
    case True
    then have nm: "nodeMapAt reps name = Some name" by (simp add: nodeMapAt_def)
    have neq: "name \<noteq> cur" using Cons.prems(6) by auto
    have cur1: "onBranch t1 side cur" using grow Cons.prems(2) by blast
    have "childPtr t1 side cur = Some name"
      by (simp add: t1_def childPtr_setChild nm)
    with cur1 have name1: "onBranch t1 side name" by (rule onBranch.atChild)
    have free: "childPtr t1 side name = None"
      using Cons.prems(4) neq by (simp add: t1_def childPtr_setChild)
    have frees: "\<forall>n \<in> set names. childPtr t1 side n = None"
      using Cons.prems(4,6) by (auto simp: t1_def childPtr_setChild)
    have d: "distinct names" "name \<notin> set names"
      using Cons.prems(5) by auto
    have run': "chainSelfSymmetric side (nodeMapAt reps) names (Some name, t1) = Some (cur', t')"
      using run nm by simp
    have ih: "(\<forall>n. onBranch t1 side n \<longrightarrow> onBranch t' side n)
       \<and> (\<forall>n \<in> set names. n \<in> set reps \<longrightarrow> onBranch t' side n)"
      using Cons.IH[OF run' name1 free frees d] .
    with grow name1 show ?thesis by auto
  qed
qed

lemma branchEnd_free: "branchEnd fuel t side n = Some e \<Longrightarrow> childPtr t side e = None"
  by (induction fuel t side n rule: branchEnd.induct) (auto split: option.splits)

lemma findOpenSlot_free:
  "findOpenSlot fuel t side node = Some (Some target) \<Longrightarrow> childPtr t side target = None"
  by (induction fuel t side node rule: findOpenSlot.induct) (auto split: option.splits if_splits)

lemma attachFirst_grow:
  assumes "attachFirst fuel side' p t = Some (cur', t')" and "onBranch t side n"
  shows "onBranch t' side n"
proof -
  obtain r where r: "rootPtr t = Some r"
    using assms(1) by (auto simp: attachFirst_def split: option.splits)
  show ?thesis
  proof (cases "childPtr t side' r = None")
    case True
    with assms(1) r have "t' = setChild side' r p t" by (auto simp: attachFirst_def)
    with onBranch_grow[OF assms(2) True] show ?thesis by simp
  next
    case False
    then obtain e where e: "branchEnd fuel t side' r = Some e" and t': "t' = setChild side' e p t"
      using assms(1) r by (auto simp: attachFirst_def split: option.splits)
    from onBranch_grow[OF assms(2) branchEnd_free[OF e]] t' show ?thesis by simp
  qed
qed

lemma attachAt_grow:
  assumes "attachAt fuel side' p (cur, t) = Some (cur', t')" and "onBranch t side n"
  shows "onBranch t' side n"
proof -
  obtain c where c: "cur = Some c"
    using assms(1) by (auto simp: attachAt_def split: option.splits)
  show ?thesis
  proof (cases "childPtr t side' c = None")
    case True
    with assms(1) c have "t' = setChild side' c p t" by (auto simp: attachAt_def)
    with onBranch_grow[OF assms(2) True] show ?thesis by simp
  next
    case False
    show ?thesis
    proof (cases "findOpenSlot fuel t side' (rootPtr t)")
      case None
      with assms(1) c False show ?thesis by (simp add: attachAt_def)
    next
      case (Some found)
      show ?thesis
      proof (cases found)
        case None
        with assms c False Some show ?thesis by (simp add: attachAt_def)
      next
        case (Some target)
        with \<open>findOpenSlot fuel t side' (rootPtr t) = Some found\<close>
        have f: "findOpenSlot fuel t side' (rootPtr t) = Some (Some target)" by simp
        with assms(1) c False have "t' = setChild side' target p t" by (auto simp: attachAt_def)
        with onBranch_grow[OF assms(2) findOpenSlot_free[OF f]] show ?thesis by simp
      qed
    qed
  qed
qed

lemma placeOthers_grow:
  assumes "placeOthers fuel side' nodeMap i names (cur, t) = Some (cur', t')"
    and "onBranch t side n"
  shows "onBranch t' side n"
  using assms
proof (induction names arbitrary: i cur t)
  case Nil
  then show ?case by simp
next
  case (Cons moduleName rest)
  obtain st1 where step:
    "(if i = 0 then attachFirst fuel side' (nodeMap moduleName) (snd (cur, t))
      else if i mod 2 = 0 then attachAt fuel side' (nodeMap moduleName) (cur, t)
      else attachAt fuel (otherSide side') (nodeMap moduleName) (cur, t)) = Some st1"
    and rest: "placeOthers fuel side' nodeMap (Suc i) rest st1 = Some (cur', t')"
    using Cons.prems(1) by (simp split: option.splits)
  obtain cur1 t1 where st1: "st1 = (cur1, t1)" by (cases st1)
  have b1: "onBranch t1 side n"
    using step Cons.prems(2) attachFirst_grow attachAt_grow unfolding st1
    by (auto split: if_splits)
  have rest: "placeOthers fuel side' nodeMap (Suc i) rest (cur1, t1) = Some (cur', t')"
    using rest st1 by simp
  from Cons.IH[OF rest b1] show ?case .
qed

lemma linkNodes_boundary:
  assumes "linkNodes s = Inr t"
    and "distinct (selfSymmetricModules s)"
    and "name \<in> set (selfSymmetricModules s)"
    and "name \<in> set (representativeModules s)"
  shows "onBranch t (boundarySide (symmetryType s)) name"
proof -
  define reps where "reps = representativeModules s"
  define selfs where "selfs = selfSymmetricModules s"
  define side where "side = boundarySide (symmetryType s)"
  define others where "others = sort_key (sortExtent s) (filter (\<lambda>name. \<not> isSelfSymmetric s name) reps)"
  define picked where "picked = (case others of
                      rootName # rest \<Rightarrow> Some (rootName, rest, selfs)
                    | [] \<Rightarrow>
                        (case selfs of
                           rootName # rest \<Rightarrow> Some (rootName, [], rest)
                         | [] \<Rightarrow> None))"
  have ne: "reps \<noteq> []" using assms(4) reps_def by auto
  obtain rootName rest chain where picked: "picked = Some (rootName, rest, chain)"
    using assms(1) ne
    by (cases picked) (auto simp: linkNodes_def Let_def reps_def[symmetric] selfs_def[symmetric]
        others_def[symmetric] picked_def[symmetric] split: if_splits)
  define t0 where "t0 = emptyStore\<lparr>rootPtr := nodeMapAt reps rootName\<rparr>"
  have r0: "rootPtr t0 = nodeMapAt reps rootName" by (simp add: t0_def)
  have cond: "\<not> (2 \<le> length (filter (\<lambda>name. \<not> isSelfSymmetric s name) reps)
            \<and> \<not> list_all (\<lambda>name. map_of (modules s) name \<noteq> None)
                  (filter (\<lambda>name. \<not> isSelfSymmetric s name) reps))"
    using assms(1) unfolding linkNodes_def Let_def reps_def[symmetric]
    by (auto split: if_splits)
  have form: "linkNodes s =
      (case chainSelfSymmetric side (nodeMapAt reps) chain (rootPtr t0, t0) of
         None \<Rightarrow> Inl NoResult
       | Some st \<Rightarrow>
           (case placeOthers (Suc (length reps)) side (nodeMapAt reps) 0 rest st of
              None \<Rightarrow> Inl NoResult
            | Some (currentNode, t) \<Rightarrow> Inr t))"
    using cond ne picked
    unfolding linkNodes_def Let_def reps_def[symmetric] selfs_def[symmetric]
        others_def[symmetric] picked_def[symmetric] side_def[symmetric]
    by (auto simp: t0_def)
  obtain st1 where c1: "chainSelfSymmetric side (nodeMapAt reps) chain (rootPtr t0, t0) = Some st1"
    and c2': "placeOthers (Suc (length reps)) side (nodeMapAt reps) 0 rest st1 \<noteq> None"
    using assms(1) form by (auto split: option.splits)
  obtain cur1 t1 where st1: "st1 = (cur1, t1)" by (cases st1)
  obtain cur2 where c2: "placeOthers (Suc (length reps)) side (nodeMapAt reps) 0 rest (cur1, t1) = Some (cur2, t)"
    using assms(1) form c1 c2' st1 by (auto split: option.splits)
  have c1: "chainSelfSymmetric side (nodeMapAt reps) chain (rootPtr t0, t0) = Some (cur1, t1)"
    using c1 st1 by simp
  have free0: "childPtr t0 side n = None" for n
    by (cases side) (simp_all add: t0_def emptyStore_def childPtr_def)
  have root_cases: "(rootName \<in> set reps \<and> rootName \<notin> set selfs \<and> chain = selfs)
                  \<or> (selfs = rootName # chain)"
  proof (cases others)
    case (Cons a list)
    then have p: "rootName = a" "chain = selfs" using picked by (simp_all add: picked_def)
    have "a \<in> set others" using Cons by simp
    then have "a \<in> set reps \<and> \<not> isSelfSymmetric s a" by (auto simp: others_def)
    then show ?thesis using p by (simp add: isSelfSymmetric_def selfs_def)
  next
    case Nil
    then show ?thesis using picked by (auto simp: picked_def split: list.splits)
  qed
  have "onBranch t1 side name"
  proof (cases "rootName \<in> set reps")
    case False
    then have r0: "rootPtr t0 = None" by (simp add: t0_def nodeMapAt_def)
    have "chain = []"
    proof (cases chain)
      case Nil then show ?thesis .
    next
      case (Cons a list)
      with c1 r0 show ?thesis by simp
    qed
    with root_cases False have "selfs = [rootName]" by auto
    with assms(3,4) False show ?thesis by (simp add: selfs_def reps_def)
  next
    case True
    then have r0: "rootPtr t0 = Some rootName" by (simp add: t0_def nodeMapAt_def)
    have b0: "onBranch t0 side rootName" using r0 by (rule onBranch.atRoot)
    have dist: "distinct chain \<and> rootName \<notin> set chain"
      using root_cases assms(2) by (auto simp: selfs_def)
    have c1': "chainSelfSymmetric side (nodeMapAt reps) chain (Some rootName, t0) = Some (cur1, t1)"
      using c1 r0 by simp
    have res: "(\<forall>n. onBranch t0 side n \<longrightarrow> onBranch t1 side n)
       \<and> (\<forall>n \<in> set chain. n \<in> set reps \<longrightarrow> onBranch t1 side n)"
      using chain_onBranch[OF c1' b0 free0 _ _ _] dist free0 by blast
    have "name = rootName \<or> name \<in> set chain"
      using root_cases assms(3) by (auto simp: selfs_def)
    then show ?thesis
      using res b0 assms(4) by (auto simp: reps_def)
  qed
  from placeOthers_grow[OF c2 this] show ?thesis by (simp add: side_def)
qed

text \<open>
  Claim C6. When \<open>buildInitialBStarTree\<close> completes without error, every self-symmetric
  representative lies on the rightmost branch of the tree for a VERTICAL group and on the
  leftmost branch for a HORIZONTAL group. The names of the self-symmetric modules are taken
  to be distinct; the two validators at the end of the builder are arbitrary.
\<close>

theorem initial_tree_boundary:
  assumes "buildInitialBStarTree validateTreeStructure validateSymmetryConstraints s = Inr t"
    and "distinct (selfSymmetricModules s)"
    and "name \<in> set (selfSymmetricModules s)"
    and "name \<in> set (representativeModules s)"
  shows "(symmetryType s = VERTICAL \<longrightarrow> onBranch t RightChild name)
       \<and> (symmetryType s = HORIZONTAL \<longrightarrow> onBranch t LeftChild name)"
proof -
  have "linkNodes s = Inr t"
    using assms(1) by (auto simp: buildInitialBStarTree_def split: sum.splits if_splits)
  from linkNodes_boundary[OF this assms(2,3,4)] show ?thesis
    by (auto simp: boundarySide_def)
qed

theorem initial_tree_boundary_witness:
  "buildInitialBStarTree (\<lambda>t. True) (\<lambda>t. True) groupFour = Inr groupFourStore
   \<and> distinct (selfSymmetricModules groupFour)
   \<and> ''c'' \<in> set (selfSymmetricModules groupFour)
   \<and> ''c'' \<in> set (representativeModules groupFour)
   \<and> symmetryType groupFour = VERTICAL
   \<and> onBranch groupFourStore RightChild ''c''"
proof -
  have d: "distinct (selfSymmetricModules groupFour)"
    and m: "''c'' \<in> set (selfSymmetricModules groupFour)"
    and r: "''c'' \<in> set (representativeModules groupFour)"
    and v: "symmetryType groupFour = VERTICAL"
    by (simp_all add: groupFour_def group_eval)
  show ?thesis
    using groupFour_built d m r v initial_tree_boundary[OF groupFour_built d m r] by simp
qed

section \<open>Calling pack twice\<close>

lemma pack_groupRotating:
  "pack getContourHeight groupRotating = Some (True, groupRotatingOnce)"
proof -
  have a: "packBStarTree getContourHeight
             (groupRotating\<lparr>preorderTraversal := [''e''], inorderTraversal := [''e'']\<rparr>)
    = Some (groupRotating\<lparr>preorderTraversal := [''e''], inorderTraversal := [''e''],
              contourHead := [(0, 4), (1, 0)]\<rparr>)"
    by (simp add: groupRotating_def group_eval contour_eval packing_eval compaction_eval)
  have b: "calculateSymmetryAxisPosition
             (groupRotating\<lparr>preorderTraversal := [''e''], inorderTraversal := [''e''],
                contourHead := [(0, 4), (1, 0)]\<rparr>)
    = Some (groupRotating\<lparr>preorderTraversal := [''e''], inorderTraversal := [''e''],
              contourHead := [(0, 4), (1, 0)], symmetryAxisPosition := 9 / 4,
              groupAxisPosition := 9 / 4\<rparr>)"
    by (simp add: groupRotating_def group_eval axis_eval)
  have c: "updateSymmetricModulePositions
             (groupRotating\<lparr>preorderTraversal := [''e''], inorderTraversal := [''e''],
                contourHead := [(0, 4), (1, 0)], symmetryAxisPosition := 9 / 4,
                groupAxisPosition := 9 / 4\<rparr>)
    = Some groupRotatingOnce"
    by (simp add: groupRotating_def groupRotatingOnce_def group_eval projection_eval axis_eval
        updateModule_def setPosition_def)
  have d: "validateSymmetry groupRotatingOnce"
    by (simp add: groupRotatingOnce_def group_eval validation_eval)
  have e: "preorder (root groupRotating) = [''e''] \<and> inorder (root groupRotating) = [''e'']"
    by (simp add: groupRotating_def group_eval)
  show ?thesis
    unfolding pack_def Let_def using a b c d e by simp
qed

lemma pack_groupRotatingOnce:
  "pack getContourHeight groupRotatingOnce = Some (True, groupRotatingTwice)"
proof -
  have a: "packBStarTree getContourHeight groupRotatingOnce = Some groupRotatingOnce"
    by (simp add: groupRotatingOnce_def group_eval contour_eval packing_eval compaction_eval)
  have b: "calculateSymmetryAxisPosition groupRotatingOnce
    = Some (groupRotatingOnce\<lparr>symmetryAxisPosition := 2, groupAxisPosition := 2\<rparr>)"
    by (simp add: groupRotatingOnce_def group_eval axis_eval)
  have c: "updateSymmetricModulePositions
             (groupRotatingOnce\<lparr>symmetryAxisPosition := 2, groupAxisPosition := 2\<rparr>)
    = Some groupRotatingTwice"
    by (simp add: groupRotatingOnce_def groupRotatingTwice_def group_eval projection_eval
        axis_eval updateModule_def setPosition_def)
  have d: "validateSymmetry groupRotatingTwice"
    by (simp add: groupRotatingOnce_def groupRotatingTwice_def group_eval validation_eval)
  have e: "groupRotatingOnce\<lparr>preorderTraversal := preorder (root groupRotatingOnce),
              inorderTraversal := inorder (root groupRotatingOnce)\<rparr> = groupRotatingOnce"
    by (simp add: groupRotatingOnce_def)
  show ?thesis
    unfolding pack_def Let_def e using a b c d by simp
qed

text \<open>
  Claim C9, as stated, fails. The axis is computed from the partner's width before the
  projector rotates the partner. For the pair \<open>(e, e2)\<close> the first call computes the axis
  9/4 from the width 4 of \<open>e2\<close>, rotates \<open>e2\<close> and puts it at \<open>x = 4\<close>; the second call
  finds \<open>e2\<close> with width 1, computes the axis 2 and puts it at \<open>x = 3\<close>.
\<close>

theorem pack_twice_moves_partner:
  "pack getContourHeight groupRotating = Some (True, groupRotatingOnce)
   \<and> pack getContourHeight groupRotatingOnce = Some (True, groupRotatingTwice)
   \<and> map_option getX (map_of (modules groupRotatingOnce) ''e2'') = Some 4
   \<and> map_option getX (map_of (modules groupRotatingTwice) ''e2'') = Some 3"
  using pack_groupRotating pack_groupRotatingOnce
  by (simp add: groupRotatingOnce_def groupRotatingTwice_def placed_def)

section \<open>Tables that agree\<close>

lemma agree_refl: "agree P F t t"
  by (simp add: agree_def entryAgrees_def list_all2_refl)

lemma agree_mono:
  assumes "agree P F t1 t2" and "P' \<subseteq> P" and "F' \<subseteq> F"
  shows "agree P' F' t1 t2"
  using assms unfolding agree_def
  by (elim list_all2_mono) (auto simp: entryAgrees_def)

lemma agree_trans:
  assumes "agree P F t1 t2" and "agree P F t2 t3"
  shows "agree P F t1 t3"
  using assms unfolding agree_def
  by (rule list_all2_trans[rotated]) (auto simp: entryAgrees_def)

lemma agree_map_of:
  assumes "agree P F t1 t2"
  shows "rel_option (\<lambda>m1 m2. entryAgrees P F (k, m1) (k, m2)) (map_of t1 k) (map_of t2 k)"
  using assms unfolding agree_def
  by (induction rule: list_all2_induct) (auto simp: entryAgrees_def)

lemma agree_lookup:
  assumes "agree P F t1 t2" and "map_of t1 k = Some m1"
  obtains m2 where "map_of t2 k = Some m2" and "entryAgrees P F (k, m1) (k, m2)"
  using agree_map_of[OF assms(1), of k] assms(2)
  by (cases "map_of t2 k") auto

lemma agree_updateModule:
  assumes "agree P F t1 t2"
    and "\<And>m1 m2. entryAgrees P F (k, m1) (k, m2) \<Longrightarrow> entryAgrees P' F' (k, f1 m1) (k, f2 m2)"
    and "P' \<subseteq> insert k P" and "F' \<subseteq> insert k F"
  shows "agree P' F' (updateModule k f1 t1) (updateModule k f2 t2)"
  using assms(1) unfolding agree_def
proof (induction rule: list_all2_induct)
  case Nil
  then show ?case by (simp add: updateModule_def)
next
  case (Cons e1 t1 e2 t2)
  obtain k1 m1 where e1: "e1 = (k1, m1)" by (cases e1)
  obtain k2 m2 where e2: "e2 = (k2, m2)" by (cases e2)
  have keys: "k1 = k2" using Cons.hyps(1) by (simp add: entryAgrees_def e1 e2)
  have "entryAgrees P' F' (if k1 = k then (k1, f1 m1) else (k1, m1))
          (if k2 = k then (k2, f2 m2) else (k2, m2))"
  proof (cases "k1 = k")
    case True
    then show ?thesis using assms(2)[of m1 m2] Cons.hyps(1) keys by (simp add: e1 e2)
  next
    case False
    then show ?thesis
      using Cons.hyps(1) keys assms(3,4) by (auto simp: entryAgrees_def e1 e2)
  qed
  then show ?case
    using Cons.IH by (simp add: updateModule_def e1 e2)
qed

lemma updateModule_ident: "updateModule k (\<lambda>m. m) t = t"
  by (induction t) (auto simp: updateModule_def)

lemma agree_after_update:
  assumes "\<And>m. getWidth (f m) = getWidth m \<and> getHeight (f m) = getHeight m
               \<and> (k \<in> F \<longrightarrow> getRotated (f m) = getRotated m)"
    and "k \<notin> P"
  shows "agree P F t (updateModule k f t)"
proof -
  have "agree P F (updateModule k (\<lambda>m. m) t) (updateModule k f t)"
    using assms by (intro agree_updateModule[OF agree_refl[of P F t]]) (auto simp: entryAgrees_def)
  then show ?thesis by (simp add: updateModule_ident)
qed

lemma agree_setPosition:
  assumes "agree P F t1 t2"
  shows "agree (insert k P) F (updateModule k (setPosition px py) t1)
           (updateModule k (setPosition px py) t2)"
  using assms
  by (rule agree_updateModule) (auto simp: entryAgrees_def setPosition_def)

lemma agree_all_eq:
  assumes "agree UNIV UNIV t1 t2"
  shows "t1 = t2"
proof -
  have "entryAgrees UNIV UNIV e1 e2 \<Longrightarrow> e1 = e2" for e1 e2
    by (cases e1; cases e2) (auto simp: entryAgrees_def)
  then have "list_all2 (=) t1 t2"
    using assms unfolding agree_def by (elim list_all2_mono) auto
  then show ?thesis by (simp add: list_all2_eq)
qed

section \<open>The packing loop reads only dimensions\<close>

lemma processLeft_agree:
  assumes "agree P F t1 t2"
    and "processLeft hgt n l nx ny (q, c, t1) = Some (q', c', r1)"
  shows "\<exists>r2. processLeft hgt n l nx ny (q, c, t2) = Some (q', c', r2)
              \<and> agree (P \<union> topName l) F r1 r2"
proof (cases l)
  case Null
  with assms show ?thesis by (simp add: processLeft_def)
next
  case (Node ln ll lr)
  obtain p1 c1 where a: "map_of t1 n = Some p1" "map_of t1 ln = Some c1"
    using assms(2) Node by (auto simp: processLeft_def split: option.splits)
  obtain p2 where p2: "map_of t2 n = Some p2" "getWidth p1 = getWidth p2"
    using agree_lookup[OF assms(1) a(1)] by (auto simp: entryAgrees_def)
  obtain c2 where c2: "map_of t2 ln = Some c2" "getWidth c1 = getWidth c2" "getHeight c1 = getHeight c2"
    using agree_lookup[OF assms(1) a(2)] by (auto simp: entryAgrees_def)
  show ?thesis
    using assms(2) a p2 c2 Node agree_setPosition[OF assms(1), of ln]
    by (auto simp: processLeft_def Let_def)
qed

lemma processRight_agree:
  assumes "agree P F t1 t2"
    and "processRight n r nx ny (q, c, t1) = Some (q', c', r1)"
  shows "\<exists>r2. processRight n r nx ny (q, c, t2) = Some (q', c', r2)
              \<and> agree (P \<union> topName r) F r1 r2"
proof (cases r)
  case Null
  with assms show ?thesis by (simp add: processRight_def)
next
  case (Node rn rl rr)
  obtain p1 c1 where a: "map_of t1 n = Some p1" "map_of t1 rn = Some c1"
    using assms(2) Node by (auto simp: processRight_def split: option.splits)
  obtain p2 where p2: "map_of t2 n = Some p2" "getHeight p1 = getHeight p2"
    using agree_lookup[OF assms(1) a(1)] by (auto simp: entryAgrees_def)
  obtain c2 where c2: "map_of t2 rn = Some c2" "getWidth c1 = getWidth c2" "getHeight c1 = getHeight c2"
    using agree_lookup[OF assms(1) a(2)] by (auto simp: entryAgrees_def)
  show ?thesis
    using assms(2) a p2 c2 Node agree_setPosition[OF assms(1), of rn]
    by (auto simp: processRight_def Let_def)
qed

lemma processLeft_frame:
  assumes "processLeft hgt n l nx ny (q, c, t) = Some (q', c', r)"
  shows "agree (- topName l) UNIV t r"
proof (cases l)
  case Null
  with assms show ?thesis by (simp add: processLeft_def agree_refl)
next
  case (Node ln ll lr)
  then obtain px py where "r = updateModule ln (setPosition px py) t"
    using assms by (auto simp: processLeft_def Let_def split: option.splits)
  then show ?thesis
    using Node by (simp add: agree_after_update setPosition_def)
qed

lemma processRight_frame:
  assumes "processRight n r nx ny (q, c, t) = Some (q', c', r')"
  shows "agree (- topName r) UNIV t r'"
proof (cases r)
  case Null
  with assms show ?thesis by (simp add: processRight_def agree_refl)
next
  case (Node rn rl rr)
  then obtain px py where "r' = updateModule rn (setPosition px py) t"
    using assms by (auto simp: processRight_def Let_def split: option.splits)
  then show ?thesis
    using Node by (simp add: agree_after_update setPosition_def)
qed

lemma topName_namesBelow: "topName l \<union> namesBelow l = set (preorder l)"
  by (cases l) auto

lemma queueBelow_Node:
  "queueBelow ((Node n l r, nx, ny) # q)
     = topName l \<union> namesBelow l \<union> (topName r \<union> namesBelow r) \<union> queueBelow q"
  by (simp add: queueBelow_def topName_namesBelow)

lemma queueBelow_snoc: "queueBelow (q @ [e]) = queueBelow q \<union> namesBelow (fst e)"
  by (auto simp: queueBelow_def)

lemma processLeft_queueBelow:
  assumes "processLeft hgt n l nx ny (q, c, t) = Some (q', c', r)"
  shows "queueBelow q' = queueBelow q \<union> namesBelow l"
proof (cases l)
  case Null
  with assms show ?thesis by (simp add: processLeft_def)
next
  case (Node ln ll lr)
  then obtain px py where "q' = q @ [(l, px, py)]"
    using assms by (auto simp: processLeft_def Let_def split: option.splits)
  then show ?thesis by (simp add: queueBelow_snoc)
qed

lemma processRight_queueBelow:
  assumes "processRight n r nx ny (q, c, t) = Some (q', c', r')"
  shows "queueBelow q' = queueBelow q \<union> namesBelow r"
proof (cases r)
  case Null
  with assms show ?thesis by (simp add: processRight_def)
next
  case (Node rn rl rr)
  then obtain px py where "q' = q @ [(r, px, py)]"
    using assms by (auto simp: processRight_def Let_def split: option.splits)
  then show ?thesis by (simp add: queueBelow_snoc)
qed

lemma bfsLoop_agree:
  assumes "bfsLoop hgt (q, c, t1) = Some (c', r1)" and "agree P F t1 t2"
  shows "\<exists>r2. bfsLoop hgt (q, c, t2) = Some (c', r2) \<and> agree (P \<union> queueBelow q) F r1 r2"
  using assms
proof (induction hgt "(q, c, t1)" arbitrary: q c t1 t2 P rule: bfsLoop.induct)
  case (1 hgt c tbl)
  then show ?case by (simp add: queueBelow_def)
next
  case (2 hgt nodeX nodeY bfsQueue c tbl)
  then show ?case by simp
next
  case (3 hgt n l r nodeX nodeY bfsQueue c tbl)
  obtain st1 where s1: "processLeft hgt n l nodeX nodeY (bfsQueue, c, tbl) = Some st1"
    using "3.prems"(1) by (auto split: option.splits)
  obtain st2 where s2: "processRight n r nodeX nodeY st1 = Some st2"
    using "3.prems"(1) s1 by (auto split: option.splits)
  have rest: "bfsLoop hgt st2 = Some (c', r1)"
    using "3.prems"(1) s1 s2 by simp
  obtain qa ca ta where st1: "st1 = (qa, ca, ta)" by (cases st1)
  obtain qb cb tb where st2: "st2 = (qb, cb, tb)" by (cases st2)
  obtain ta' where l2: "processLeft hgt n l nodeX nodeY (bfsQueue, c, t2) = Some (qa, ca, ta')"
    and la: "agree (P \<union> topName l) F ta ta'"
    using processLeft_agree[OF "3.prems"(2)] s1 st1 by blast
  obtain tb' where r2: "processRight n r nodeX nodeY (qa, ca, ta') = Some (qb, cb, tb')"
    and ra: "agree (P \<union> topName l \<union> topName r) F tb tb'"
    using processRight_agree[OF la] s2 st1 st2 by blast
  obtain r2' where fin: "bfsLoop hgt (qb, cb, tb') = Some (c', r2')"
    and fa: "agree (P \<union> topName l \<union> topName r \<union> queueBelow qb) F r1 r2'"
    using "3.hyps"[OF s1 s2[unfolded st2] rest[unfolded st2] ra] by blast
  have qb: "queueBelow qb = queueBelow bfsQueue \<union> namesBelow l \<union> namesBelow r"
    using processLeft_queueBelow[OF s1[unfolded st1]]
      processRight_queueBelow[OF s2[unfolded st1 st2]] by simp
  have "P \<union> topName l \<union> topName r \<union> queueBelow qb
        = P \<union> queueBelow ((Node n l r, nodeX, nodeY) # bfsQueue)"
    unfolding qb queueBelow_Node by blast
  with fa l2 r2 fin show ?case by simp
qed

lemma bfsLoop_frame:
  assumes "bfsLoop hgt (q, c, t) = Some (c', res)"
  shows "agree (- queueBelow q) UNIV t res"
  using assms
proof (induction hgt "(q, c, t)" arbitrary: q c t rule: bfsLoop.induct)
  case (1 hgt c tbl)
  then show ?case by (simp add: agree_refl)
next
  case (2 hgt nodeX nodeY bfsQueue c tbl)
  then show ?case by simp
next
  case (3 hgt n l r nodeX nodeY bfsQueue c tbl)
  obtain st1 where s1: "processLeft hgt n l nodeX nodeY (bfsQueue, c, tbl) = Some st1"
    using "3.prems"(1) by (auto split: option.splits)
  obtain st2 where s2: "processRight n r nodeX nodeY st1 = Some st2"
    using "3.prems"(1) s1 by (auto split: option.splits)
  have rest: "bfsLoop hgt st2 = Some (c', res)"
    using "3.prems"(1) s1 s2 by simp
  obtain qa ca ta where st1: "st1 = (qa, ca, ta)" by (cases st1)
  obtain qb cb tb where st2: "st2 = (qb, cb, tb)" by (cases st2)
  have qb: "queueBelow qb = queueBelow bfsQueue \<union> namesBelow l \<union> namesBelow r"
    using processLeft_queueBelow[OF s1[unfolded st1]]
      processRight_queueBelow[OF s2[unfolded st1 st2]] by simp
  define W where "W = queueBelow ((Node n l r, nodeX, nodeY) # bfsQueue)"
  have sub: "topName l \<subseteq> W" "topName r \<subseteq> W" "queueBelow qb \<subseteq> W"
    unfolding W_def qb queueBelow_Node by blast+
  have a1: "agree (- W) UNIV tbl ta"
    using agree_mono[OF processLeft_frame[OF s1[unfolded st1]]] sub(1) by blast
  have a2: "agree (- W) UNIV ta tb"
    using agree_mono[OF processRight_frame[OF s2[unfolded st1 st2]]] sub(2) by blast
  have a3: "agree (- W) UNIV tb res"
    using agree_mono[OF "3.hyps"[OF s1 s2[unfolded st2] rest[unfolded st2]]] sub(3) by blast
  show ?case
    using agree_trans[OF agree_trans[OF a1 a2] a3] by (simp add: W_def)
qed

section \<open>Packing and compaction agree on agreeing tables\<close>

lemma agree_geometry:
  assumes "agree P F t1 t2" and "k \<in> P"
  shows "map_option (\<lambda>m. (getX m, getY m, getWidth m, getHeight m)) (map_of t1 k)
         = map_option (\<lambda>m. (getX m, getY m, getWidth m, getHeight m)) (map_of t2 k)"
  using agree_map_of[OF assms(1), of k] assms(2)
  by (cases "map_of t1 k"; cases "map_of t2 k") (auto simp: entryAgrees_def)

lemma agree_dims:
  assumes "agree P F t1 t2"
  shows "map_option (\<lambda>m. (getWidth m, getHeight m)) (map_of t1 k)
         = map_option (\<lambda>m. (getWidth m, getHeight m)) (map_of t2 k)"
  using agree_map_of[OF assms(1), of k]
  by (cases "map_of t1 k"; cases "map_of t2 k") (auto simp: entryAgrees_def)

lemma agree_flag:
  assumes "agree P F t1 t2" and "k \<in> F"
  shows "map_option getRotated (map_of t1 k) = map_option getRotated (map_of t2 k)"
  using agree_map_of[OF assms(1), of k] assms(2)
  by (cases "map_of t1 k"; cases "map_of t2 k") (auto simp: entryAgrees_def)

lemma collectRepresentatives_agree:
  assumes "agree P F t1 t2" and "set names \<subseteq> P"
  shows "collectRepresentatives t1 names = collectRepresentatives t2 names"
  using assms(2)
proof (induction names)
  case Nil
  then show ?case by simp
next
  case (Cons k names)
  have "k \<in> P" using Cons.prems by simp
  from agree_geometry[OF assms(1) this] Cons show ?case
    by (cases "map_of t1 k"; cases "map_of t2 k") (auto split: option.splits)
qed

lemma agree_writeBack:
  assumes "agree P F t1 t2"
  shows "agree P F (writeBack positions t1) (writeBack positions t2)"
  using assms
proof (induction positions arbitrary: t1 t2)
  case Nil
  then show ?case by (simp add: writeBack_def)
next
  case (Cons p positions)
  obtain k px py where p: "p = (k, px, py)" by (cases p)
  have "agree P F (updateModule k (setPosition px py) t1) (updateModule k (setPosition px py) t2)"
    using agree_mono[OF agree_setPosition[OF Cons.prems, of k px py]] by blast
  from Cons.IH[OF this] show ?case by (simp add: writeBack_def p)
qed

lemma writeBack_frame: "agree (- fst ` set positions) UNIV t (writeBack positions t)"
proof (induction positions arbitrary: t)
  case Nil
  then show ?case by (simp add: writeBack_def agree_refl)
next
  case (Cons p positions)
  obtain k px py where p: "p = (k, px, py)" by (cases p)
  define W where "W = fst ` set (p # positions)"
  have a: "agree (- W) UNIV t (updateModule k (setPosition px py) t)"
    by (rule agree_after_update) (simp_all add: setPosition_def W_def p)
  have b: "agree (- W) UNIV (updateModule k (setPosition px py) t)
             (writeBack positions (updateModule k (setPosition px py) t))"
    using agree_mono[OF Cons.IH[of "updateModule k (setPosition px py) t"], of "- W" UNIV]
    by (auto simp: W_def)
  show ?case
    using agree_trans[OF a b] by (simp add: writeBack_def p W_def)
qed

lemma compactPlacement_agree:
  assumes "compactPlacement s1 = Some r1"
    and "sameGroup s1 s2"
    and "agree P F (modules s1) (modules s2)"
    and "set (representativeModules s1) \<subseteq> P"
  shows "\<exists>tbl1 tbl2. r1 = s1\<lparr>modules := tbl1\<rparr> \<and> compactPlacement s2 = Some (s2\<lparr>modules := tbl2\<rparr>)
           \<and> agree P F tbl1 tbl2"
proof -
  obtain p d where c1: "collectRepresentatives (modules s1) (representativeModules s1) = Some (p, d)"
    using assms(1) by (auto simp: compactPlacement_def split: option.splits)
  have c2: "collectRepresentatives (modules s2) (representativeModules s2) = Some (p, d)"
    using collectRepresentatives_agree[OF assms(3,4)] c1 assms(2) by (simp add: sameGroup_def)
  define ps where "ps = compactedPositions (symmetryType s1) d p"
  have r1: "r1 = s1\<lparr>modules := writeBack ps (modules s1)\<rparr>"
    using assms(1) c1 by (auto simp: compactPlacement_def Let_def ps_def)
  have r2: "compactPlacement s2 = Some (s2\<lparr>modules := writeBack ps (modules s2)\<rparr>)"
    using c2 assms(2) by (simp add: compactPlacement_def Let_def ps_def sameGroup_def)
  show ?thesis
    using r1 r2 agree_writeBack[OF assms(3)] by blast
qed

lemma compactPlacement_frame_agree:
  assumes "compactPlacement s = Some r"
  shows "\<exists>tbl. r = s\<lparr>modules := tbl\<rparr>
           \<and> agree (- set (representativeModules s)) UNIV (modules s) tbl"
proof -
  obtain positions where keys: "map fst positions = representativeModules s"
    and r: "r = s\<lparr>modules := writeBack positions (modules s)\<rparr>"
    using compactPlacement_writes[OF assms] by blast
  have "fst ` set positions = set (representativeModules s)"
    using keys by (metis set_map)
  with writeBack_frame[of positions "modules s"] r show ?thesis by auto
qed

lemma placeRoot_agree:
  assumes "placeRoot s1 = Some (q, c, ta)"
    and "root s1 = root s2" and "contourHead s1 = contourHead s2"
    and "agree P F (modules s1) (modules s2)"
  shows "\<exists>tb. placeRoot s2 = Some (q, c, tb) \<and> agree (P \<union> topName (root s1)) F ta tb"
proof (cases "root s1")
  case Null
  with assms show ?thesis by (auto simp: placeRoot_def)
next
  case (Node n l r)
  obtain m1 where m1: "map_of (modules s1) n = Some m1"
    using assms(1) Node by (auto simp: placeRoot_def split: option.splits)
  obtain m2 where m2: "map_of (modules s2) n = Some m2"
    "getWidth m1 = getWidth m2" "getHeight m1 = getHeight m2"
    using agree_lookup[OF assms(4) m1] by (auto simp: entryAgrees_def)
  have r2: "root s2 = Node n l r" using Node assms(2) by simp
  have res: "q = [(Node n l r, 0, 0)]"
    "c = updateContour 0 0 (getWidth m1) (getHeight m1) (contourHead s1)"
    "ta = updateModule n (setPosition 0 0) (modules s1)"
    using assms(1) Node m1 by (simp_all add: placeRoot_def)
  have "placeRoot s2 = Some (q, c, updateModule n (setPosition 0 0) (modules s2))"
    using r2 m2 res assms(3) by (simp add: placeRoot_def)
  moreover have "agree (P \<union> topName (root s1)) F ta
                   (updateModule n (setPosition 0 0) (modules s2))"
    using agree_setPosition[OF assms(4), of n 0 0] res(3) Node by simp
  ultimately show ?thesis by blast
qed

lemma placeRoot_frame:
  assumes "placeRoot s = Some (q, c, ta)"
  shows "agree (- topName (root s)) UNIV (modules s) ta \<and> queueBelow q = namesBelow (root s)"
proof (cases "root s")
  case Null
  with assms show ?thesis by (auto simp: placeRoot_def agree_refl queueBelow_def)
next
  case (Node n l r)
  then have "ta = updateModule n (setPosition 0 0) (modules s) \<and> q = [(root s, 0, 0)]"
    using assms by (auto simp: placeRoot_def split: option.splits)
  then show ?thesis
    using Node by (simp add: agree_after_update setPosition_def queueBelow_def)
qed

lemma packBStarTree_agree:
  assumes "packBStarTree hgt s1 = Some r1"
    and "sameGroup s1 s2"
    and "agree P F (modules s1) (modules s2)"
    and "set (representativeModules s1) \<subseteq> P \<union> set (preorder (root s1))"
  shows "\<exists>c tbl1 tbl2. r1 = s1\<lparr>contourHead := c, modules := tbl1\<rparr>
           \<and> packBStarTree hgt s2 = Some (s2\<lparr>contourHead := c, modules := tbl2\<rparr>)
           \<and> agree (P \<union> set (preorder (root s1))) F tbl1 tbl2"
proof -
  obtain q c0 ta where p1: "placeRoot (clearContour s1) = Some (q, c0, ta)"
    using assms(1) by (auto simp: packBStarTree_def Let_def split: option.splits)
  obtain c tb where b1: "bfsLoop hgt (q, c0, ta) = Some (c, tb)"
    using assms(1) p1 by (auto simp: packBStarTree_def Let_def split: option.splits)
  have k1: "compactPlacement (clearContour s1\<lparr>contourHead := c, modules := tb\<rparr>) = Some r1"
    using assms(1) p1 b1 by (simp add: packBStarTree_def Let_def)
  have same: "root (clearContour s1) = root (clearContour s2)"
    "contourHead (clearContour s1) = contourHead (clearContour s2)"
    "agree P F (modules (clearContour s1)) (modules (clearContour s2))"
    using assms(2,3) by (simp_all add: clearContour_def sameGroup_def)
  obtain ta' where p2: "placeRoot (clearContour s2) = Some (q, c0, ta')"
    and a1: "agree (P \<union> topName (root s1)) F ta ta'"
    using placeRoot_agree[OF p1 same] by (auto simp: clearContour_def)
  obtain tb' where b2: "bfsLoop hgt (q, c0, ta') = Some (c, tb')"
    and a2: "agree (P \<union> topName (root s1) \<union> queueBelow q) F tb tb'"
    using bfsLoop_agree[OF b1 a1] by blast
  have qb: "queueBelow q = namesBelow (root s1)"
    using placeRoot_frame[OF p1] by (simp add: clearContour_def)
  have a3: "agree (P \<union> set (preorder (root s1))) F tb tb'"
    using a2 topName_namesBelow[of "root s1"] qb by (simp add: Un_assoc)
  have sg: "sameGroup (clearContour s1\<lparr>contourHead := c, modules := tb\<rparr>)
              (clearContour s2\<lparr>contourHead := c, modules := tb'\<rparr>)"
    using assms(2) by (simp add: sameGroup_def clearContour_def)
  obtain tbl1 tbl2 where
    r1: "r1 = (clearContour s1\<lparr>contourHead := c, modules := tb\<rparr>)\<lparr>modules := tbl1\<rparr>"
    and k2: "compactPlacement (clearContour s2\<lparr>contourHead := c, modules := tb'\<rparr>)
               = Some ((clearContour s2\<lparr>contourHead := c, modules := tb'\<rparr>)\<lparr>modules := tbl2\<rparr>)"
    and a4: "agree (P \<union> set (preorder (root s1))) F tbl1 tbl2"
    using compactPlacement_agree[OF k1 sg, of "P \<union> set (preorder (root s1))" F] a3 assms(4)
    by (auto simp: clearContour_def)
  have "packBStarTree hgt s2 = Some (s2\<lparr>contourHead := c, modules := tbl2\<rparr>)"
    using p2 b2 k2 by (simp add: packBStarTree_def Let_def clearContour_def)
  moreover have "r1 = s1\<lparr>contourHead := c, modules := tbl1\<rparr>"
    using r1 by (simp add: clearContour_def)
  ultimately show ?thesis using a4 by blast
qed

lemma packBStarTree_frame:
  assumes "packBStarTree hgt s = Some r"
  shows "\<exists>c tbl. r = s\<lparr>contourHead := c, modules := tbl\<rparr>
           \<and> agree (- (set (preorder (root s)) \<union> set (representativeModules s))) UNIV
                (modules s) tbl"
proof -
  define W where "W = set (preorder (root s)) \<union> set (representativeModules s)"
  obtain q c0 ta where p1: "placeRoot (clearContour s) = Some (q, c0, ta)"
    using assms(1) by (auto simp: packBStarTree_def Let_def split: option.splits)
  obtain c tb where b1: "bfsLoop hgt (q, c0, ta) = Some (c, tb)"
    using assms(1) p1 by (auto simp: packBStarTree_def Let_def split: option.splits)
  have k1: "compactPlacement (clearContour s\<lparr>contourHead := c, modules := tb\<rparr>) = Some r"
    using assms(1) p1 b1 by (simp add: packBStarTree_def Let_def)
  have f1: "agree (- topName (root s)) UNIV (modules s) ta" and qb: "queueBelow q = namesBelow (root s)"
    using placeRoot_frame[OF p1] by (simp_all add: clearContour_def)
  have f2: "agree (- queueBelow q) UNIV ta tb"
    using bfsLoop_frame[OF b1] .
  obtain tbl where r: "r = (clearContour s\<lparr>contourHead := c, modules := tb\<rparr>)\<lparr>modules := tbl\<rparr>"
    and f3: "agree (- set (representativeModules s)) UNIV tb tbl"
    using compactPlacement_frame_agree[OF k1] by (auto simp: clearContour_def)
  have sub: "topName (root s) \<subseteq> W" "queueBelow q \<subseteq> W" "set (representativeModules s) \<subseteq> W"
    using topName_namesBelow[of "root s"] qb by (auto simp: W_def)
  have g1: "agree (- W) UNIV (modules s) ta" using agree_mono[OF f1] sub(1) by blast
  have g2: "agree (- W) UNIV ta tb" using agree_mono[OF f2] sub(2) by blast
  have g3: "agree (- W) UNIV tb tbl" using agree_mono[OF f3] sub(3) by blast
  have "agree (- W) UNIV (modules s) tbl"
    using agree_trans[OF agree_trans[OF g1 g2] g3] .
  moreover have "r = s\<lparr>contourHead := c, modules := tbl\<rparr>"
    using r by (simp add: clearContour_def)
  ultimately show ?thesis unfolding W_def by blast
qed

section \<open>The axis and the projection agree on agreeing tables\<close>

lemma foldOption_cong:
  assumes "\<And>a acc. a \<in> set xs \<Longrightarrow> f a acc = g a acc"
  shows "foldOption f xs acc = foldOption g xs acc"
  using assms by (induction xs arbitrary: acc) (auto split: option.splits)

lemma maxRepEdge_agree:
  assumes "agree P F t1 t2" and "fst ` set pairs \<subseteq> P"
  shows "maxRepEdge ty t1 pairs = maxRepEdge ty t2 pairs"
  unfolding maxRepEdge_def
proof (rule foldOption_cong)
  fix a :: "string \<times> string" and acc :: rat
  assume "a \<in> set pairs"
  then have "fst a \<in> P" using assms(2) by auto
  from agree_geometry[OF assms(1) this]
  show "(case a of (repName, symName) \<Rightarrow> \<lambda>maxRepRightEdge.
            case map_of t1 repName of None \<Rightarrow> None
            | Some repModule \<Rightarrow>
                let repRightEdge = of_int (axisCoord ty repModule + axisExtent ty repModule)
                in Some (max maxRepRightEdge repRightEdge)) acc
      = (case a of (repName, symName) \<Rightarrow> \<lambda>maxRepRightEdge.
            case map_of t2 repName of None \<Rightarrow> None
            | Some repModule \<Rightarrow>
                let repRightEdge = of_int (axisCoord ty repModule + axisExtent ty repModule)
                in Some (max maxRepRightEdge repRightEdge)) acc"
    by (cases a; cases "map_of t1 (fst a)"; cases "map_of t2 (fst a)")
       (auto simp: axisCoord_def axisExtent_def)
qed

lemma minAxisOver_agree:
  assumes "agree P F t1 t2" and "fst ` set pairs \<subseteq> P"
  shows "minAxisOver ty t1 pairs start = minAxisOver ty t2 pairs start"
  unfolding minAxisOver_def
proof (rule foldOption_cong)
  fix a :: "string \<times> string" and acc :: rat
  assume "a \<in> set pairs"
  then have "fst a \<in> P" using assms(2) by auto
  from agree_geometry[OF assms(1) this] agree_dims[OF assms(1), of "snd a"]
  show "(case a of (repName, symName) \<Rightarrow> \<lambda>minAxisPosition.
            case (map_of t1 repName, map_of t1 symName) of
              (Some repModule, Some symModule) \<Rightarrow>
                let repCenterX = of_int (axisCoord ty repModule)
                                 + of_int (axisExtent ty repModule) / 2;
                    minAxisForPositiveCoords =
                      (repCenterX + of_int (axisExtent ty symModule) / 2) / 2
                in Some (max minAxisPosition minAxisForPositiveCoords)
            | _ \<Rightarrow> None) acc
      = (case a of (repName, symName) \<Rightarrow> \<lambda>minAxisPosition.
            case (map_of t2 repName, map_of t2 symName) of
              (Some repModule, Some symModule) \<Rightarrow>
                let repCenterX = of_int (axisCoord ty repModule)
                                 + of_int (axisExtent ty repModule) / 2;
                    minAxisForPositiveCoords =
                      (repCenterX + of_int (axisExtent ty symModule) / 2) / 2
                in Some (max minAxisPosition minAxisForPositiveCoords)
            | _ \<Rightarrow> None) acc"
    by (cases a; cases "map_of t1 (fst a)"; cases "map_of t2 (fst a)";
        cases "map_of t1 (snd a)"; cases "map_of t2 (snd a)")
       (auto simp: axisCoord_def axisExtent_def)
qed

lemma layoutMax_agree:
  assumes "agree P F t1 t2" and "set reps \<subseteq> P"
  shows "layoutMax ty t1 reps = layoutMax ty t2 reps"
  unfolding layoutMax_def
proof (rule foldOption_cong)
  fix a :: string and acc :: int
  assume "a \<in> set reps"
  then have "a \<in> P" using assms(2) by auto
  from agree_geometry[OF assms(1) this]
  show "(case map_of t1 a of None \<Rightarrow> None
         | Some m \<Rightarrow> Some (max acc (axisCoord ty m + axisExtent ty m)))
      = (case map_of t2 a of None \<Rightarrow> None
         | Some m \<Rightarrow> Some (max acc (axisCoord ty m + axisExtent ty m)))"
    by (cases "map_of t1 a"; cases "map_of t2 a") (auto simp: axisCoord_def axisExtent_def)
qed

lemma maxSelfSymExtent_agree:
  assumes "agree P F t1 t2"
  shows "maxSelfSymExtent ty t1 selfs = maxSelfSymExtent ty t2 selfs"
  unfolding maxSelfSymExtent_def
proof (rule foldOption_cong)
  fix a :: string and acc :: int
  from agree_dims[OF assms(1), of a]
  show "(case map_of t1 a of None \<Rightarrow> None | Some m \<Rightarrow> Some (max acc (axisExtent ty m)))
      = (case map_of t2 a of None \<Rightarrow> None | Some m \<Rightarrow> Some (max acc (axisExtent ty m)))"
    by (cases "map_of t1 a"; cases "map_of t2 a") (auto simp: axisExtent_def)
qed

lemma computedAxis_agree:
  assumes "sameGroup s1 s2"
    and "agree P F (modules s1) (modules s2)"
    and "set (representativeModules s1) \<subseteq> P"
    and "fst ` set (repToPairMap s1) \<subseteq> P"
    and "repToPairMap s1 = [] \<and> selfSymmetricModules s1 = []
           \<longrightarrow> symmetryAxisPosition s1 = symmetryAxisPosition s2"
  shows "computedAxis s1 = computedAxis s2"
proof -
  have f: "symmetryType s2 = symmetryType s1" "repToPairMap s2 = repToPairMap s1"
    "selfSymmetricModules s2 = selfSymmetricModules s1"
    "representativeModules s2 = representativeModules s1"
    using assms(1) by (simp_all add: sameGroup_def)
  have a: "maxRepEdge (symmetryType s1) (modules s1) (repToPairMap s1)
             = maxRepEdge (symmetryType s1) (modules s2) (repToPairMap s1)"
    by (rule maxRepEdge_agree[OF assms(2,4)])
  have b: "minAxisOver (symmetryType s1) (modules s1) (repToPairMap s1)
             = minAxisOver (symmetryType s1) (modules s2) (repToPairMap s1)"
    by (rule ext) (rule minAxisOver_agree[OF assms(2,4)])
  have c: "layoutMax (symmetryType s1) (modules s1) (representativeModules s1)
             = layoutMax (symmetryType s1) (modules s2) (representativeModules s1)"
    by (rule layoutMax_agree[OF assms(2,3)])
  have d: "maxSelfSymExtent (symmetryType s1) (modules s1) (selfSymmetricModules s1)
             = maxSelfSymExtent (symmetryType s1) (modules s2) (selfSymmetricModules s1)"
    by (rule maxSelfSymExtent_agree[OF assms(2)])
  show ?thesis
    unfolding computedAxis_def Let_def f a b c d using assms(5) by auto
qed

lemma agree_setRotation:
  assumes "agree P F t1 t2"
  shows "agree P (insert k F) (updateModule k (setRotation b) t1) (updateModule k (setRotation b) t2)"
  using assms
  by (rule agree_updateModule) (auto simp: entryAgrees_def setRotation_def)

lemma noRotationNeeded_agree:
  assumes "agree P F t1 t2"
  shows "noRotationNeeded t1 pr = noRotationNeeded t2 pr"
  using agree_dims[OF assms, of "fst pr"] agree_dims[OF assms, of "snd pr"]
  by (cases "map_of t1 (fst pr)"; cases "map_of t2 (fst pr)";
      cases "map_of t1 (snd pr)"; cases "map_of t2 (snd pr)")
     (auto simp: noRotationNeeded_def needsRotation_def)

text \<open>When nothing is to be rotated, a pass of the pair loop is two updates of the partner.\<close>

lemma projectPair_settled:
  assumes "projectPair ty axis (rep, partner) t = Some r" and "noRotationNeeded t (rep, partner)"
  obtains rm sm where "map_of t rep = Some rm" and "map_of t partner = Some sm"
    and "r = updateModule partner (setRotation (getRotated rm))
               (updateModule partner
                  (if ty = VERTICAL
                   then setPosition (roundToInt (2 * axis - (of_int (axisCoord ty rm)
                          + of_int (axisExtent ty rm) / 2) - of_int (axisExtent ty sm) / 2)) (getY rm)
                   else setPosition (getX rm) (roundToInt (2 * axis - (of_int (axisCoord ty rm)
                          + of_int (axisExtent ty rm) / 2) - of_int (axisExtent ty sm) / 2))) t)"
proof -
  obtain rm sm where l: "map_of t rep = Some rm" "map_of t partner = Some sm"
    using assms(1) by (auto simp: projectPair_def split: option.splits)
  have "\<not> needsRotation rm sm"
    using assms(2) l by (simp add: noRotationNeeded_def)
  then show ?thesis
    using assms(1) l that[OF l] by (auto simp: projectPair_def Let_def)
qed

lemma projectPair_agree:
  assumes "projectPair ty axis (rep, partner) t1 = Some r1"
    and "noRotationNeeded t1 (rep, partner)"
    and "agree P F t1 t2" and "rep \<in> P" and "rep \<in> F"
  shows "\<exists>r2. projectPair ty axis (rep, partner) t2 = Some r2
              \<and> agree (insert partner P) (insert partner F) r1 r2"
proof -
  obtain rm1 sm1 where l1: "map_of t1 rep = Some rm1" "map_of t1 partner = Some sm1"
    and r1: "r1 = updateModule partner (setRotation (getRotated rm1))
               (updateModule partner
                  (if ty = VERTICAL
                   then setPosition (roundToInt (2 * axis - (of_int (axisCoord ty rm1)
                          + of_int (axisExtent ty rm1) / 2) - of_int (axisExtent ty sm1) / 2)) (getY rm1)
                   else setPosition (getX rm1) (roundToInt (2 * axis - (of_int (axisCoord ty rm1)
                          + of_int (axisExtent ty rm1) / 2) - of_int (axisExtent ty sm1) / 2))) t1)"
    using projectPair_settled[OF assms(1,2)] by blast
  obtain rm2 where rm2: "map_of t2 rep = Some rm2" "getX rm1 = getX rm2" "getY rm1 = getY rm2"
      "getWidth rm1 = getWidth rm2" "getHeight rm1 = getHeight rm2" "getRotated rm1 = getRotated rm2"
    using agree_lookup[OF assms(3) l1(1)] assms(4,5) by (auto simp: entryAgrees_def)
  obtain sm2 where sm2: "map_of t2 partner = Some sm2"
      "getWidth sm1 = getWidth sm2" "getHeight sm1 = getHeight sm2"
    using agree_lookup[OF assms(3) l1(2)] by (auto simp: entryAgrees_def)
  have nr: "\<not> needsRotation rm2 sm2"
    using assms(2) l1 rm2 sm2 by (simp add: noRotationNeeded_def needsRotation_def)
  define f where "f = (if ty = VERTICAL
                   then setPosition (roundToInt (2 * axis - (of_int (axisCoord ty rm1)
                          + of_int (axisExtent ty rm1) / 2) - of_int (axisExtent ty sm1) / 2)) (getY rm1)
                   else setPosition (getX rm1) (roundToInt (2 * axis - (of_int (axisCoord ty rm1)
                          + of_int (axisExtent ty rm1) / 2) - of_int (axisExtent ty sm1) / 2)))"
  have same: "axisCoord ty rm2 = axisCoord ty rm1" "axisExtent ty rm2 = axisExtent ty rm1"
    "axisExtent ty sm2 = axisExtent ty sm1"
    using rm2 sm2 by (simp_all add: axisCoord_def axisExtent_def)
  have r2: "projectPair ty axis (rep, partner) t2
              = Some (updateModule partner (setRotation (getRotated rm1)) (updateModule partner f t2))"
    using rm2 sm2 nr same by (auto simp: projectPair_def Let_def f_def)
  have a1: "agree (insert partner P) F (updateModule partner f t1) (updateModule partner f t2)"
    unfolding f_def using agree_setPosition[OF assms(3), of partner] by (cases "ty = VERTICAL") simp_all
  have "agree (insert partner P) (insert partner F) r1
          (updateModule partner (setRotation (getRotated rm1)) (updateModule partner f t2))"
    unfolding r1 f_def[symmetric] using agree_setRotation[OF a1] .
  with r2 show ?thesis by blast
qed

lemma projectPair_frame:
  assumes "projectPair ty axis (rep, partner) t = Some r" and "noRotationNeeded t (rep, partner)"
  shows "agree (- {partner}) (- {partner}) t r"
proof -
  obtain rm :: Module and f :: "Module \<Rightarrow> Module"
    where r: "r = updateModule partner (setRotation (getRotated rm)) (updateModule partner f t)"
    and f: "\<And>m. getWidth (f m) = getWidth m \<and> getHeight (f m) = getHeight m
                  \<and> getRotated (f m) = getRotated m"
  proof -
    obtain rm sm where
      "r = updateModule partner (setRotation (getRotated rm))
               (updateModule partner
                  (if ty = VERTICAL
                   then setPosition (roundToInt (2 * axis - (of_int (axisCoord ty rm)
                          + of_int (axisExtent ty rm) / 2) - of_int (axisExtent ty sm) / 2)) (getY rm)
                   else setPosition (getX rm) (roundToInt (2 * axis - (of_int (axisCoord ty rm)
                          + of_int (axisExtent ty rm) / 2) - of_int (axisExtent ty sm) / 2))) t)"
      using projectPair_settled[OF assms] by blast
    then show ?thesis
      using that[of rm "(if ty = VERTICAL
                   then setPosition (roundToInt (2 * axis - (of_int (axisCoord ty rm)
                          + of_int (axisExtent ty rm) / 2) - of_int (axisExtent ty sm) / 2)) (getY rm)
                   else setPosition (getX rm) (roundToInt (2 * axis - (of_int (axisCoord ty rm)
                          + of_int (axisExtent ty rm) / 2) - of_int (axisExtent ty sm) / 2)))"]
      by (auto simp: setPosition_def)
  qed
  have a: "agree (- {partner}) (- {partner}) t (updateModule partner f t)"
    by (rule agree_after_update) (simp_all add: f)
  have b: "agree (- {partner}) (- {partner}) (updateModule partner f t) r"
    unfolding r by (rule agree_after_update) (simp_all add: setRotation_def)
  show ?thesis using agree_trans[OF a b] .
qed

lemma projectPairs_agree:
  assumes "foldOption (projectPair ty axis) pairs t1 = Some r1"
    and "list_all (noRotationNeeded t1) pairs"
    and "agree P F t1 t2" and "fst ` set pairs \<subseteq> P \<inter> F"
  shows "\<exists>r2. foldOption (projectPair ty axis) pairs t2 = Some r2
              \<and> agree (P \<union> snd ` set pairs) (F \<union> snd ` set pairs) r1 r2"
  using assms
proof (induction pairs arbitrary: t1 t2 P F)
  case Nil
  then show ?case by simp
next
  case (Cons pr pairs)
  obtain rep partner where pr: "pr = (rep, partner)" by (cases pr)
  obtain ta where s1: "projectPair ty axis (rep, partner) t1 = Some ta"
    and rest: "foldOption (projectPair ty axis) pairs ta = Some r1"
    using Cons.prems(1) pr by (auto split: option.splits)
  have n: "noRotationNeeded t1 (rep, partner)" using Cons.prems(2) pr by simp
  have rp: "rep \<in> P" "rep \<in> F" using Cons.prems(4) pr by auto
  obtain tb where s2: "projectPair ty axis (rep, partner) t2 = Some tb"
    and a: "agree (insert partner P) (insert partner F) ta tb"
    using projectPair_agree[OF s1 n Cons.prems(3) rp] by blast
  have keep: "list_all (noRotationNeeded ta) pairs"
    using Cons.prems(2) noRotationNeeded_agree[OF projectPair_frame[OF s1 n]]
    by (simp add: list_all_iff)
  have sub: "fst ` set pairs \<subseteq> insert partner P \<inter> insert partner F"
    using Cons.prems(4) by auto
  obtain r2 where f2: "foldOption (projectPair ty axis) pairs tb = Some r2"
    and a2: "agree (insert partner P \<union> snd ` set pairs) (insert partner F \<union> snd ` set pairs) r1 r2"
    using Cons.IH[OF rest keep a sub] by blast
  have "foldOption (projectPair ty axis) (pr # pairs) t2 = Some r2"
    using s2 f2 pr by simp
  moreover have "agree (P \<union> snd ` set (pr # pairs)) (F \<union> snd ` set (pr # pairs)) r1 r2"
    using a2 by (simp add: pr insert_commute)
  ultimately show ?case by blast
qed

lemma projectPairs_frame:
  assumes "foldOption (projectPair ty axis) pairs t = Some r"
    and "list_all (noRotationNeeded t) pairs"
  shows "agree (- snd ` set pairs) (- snd ` set pairs) t r"
  using assms
proof (induction pairs arbitrary: t)
  case Nil
  then show ?case by (simp add: agree_refl)
next
  case (Cons pr pairs)
  obtain rep partner where pr: "pr = (rep, partner)" by (cases pr)
  obtain ta where s1: "projectPair ty axis (rep, partner) t = Some ta"
    and rest: "foldOption (projectPair ty axis) pairs ta = Some r"
    using Cons.prems(1) pr by (auto split: option.splits)
  have n: "noRotationNeeded t (rep, partner)" using Cons.prems(2) pr by simp
  have keep: "list_all (noRotationNeeded ta) pairs"
    using Cons.prems(2) noRotationNeeded_agree[OF projectPair_frame[OF s1 n]]
    by (simp add: list_all_iff)
  define W where "W = snd ` set (pr # pairs)"
  have a: "agree (- W) (- W) t ta"
    using agree_mono[OF projectPair_frame[OF s1 n], of "- W" "- W"] by (auto simp: W_def pr)
  have b: "agree (- W) (- W) ta r"
    using agree_mono[OF Cons.IH[OF rest keep], of "- W" "- W"] by (auto simp: W_def)
  show ?case using agree_trans[OF a b] by (simp add: W_def)
qed

lemma centreSelfSymmetric_agree:
  assumes "centreSelfSymmetric ty axis name t1 = Some r1"
    and "agree P F t1 t2" and "name \<in> P"
  shows "\<exists>r2. centreSelfSymmetric ty axis name t2 = Some r2 \<and> agree P F r1 r2"
proof -
  obtain m1 where m1: "map_of t1 name = Some m1"
    using assms(1) by (auto simp: centreSelfSymmetric_def split: option.splits)
  obtain m2 where m2: "map_of t2 name = Some m2" "getX m1 = getX m2" "getY m1 = getY m2"
      "getWidth m1 = getWidth m2" "getHeight m1 = getHeight m2"
    using agree_lookup[OF assms(2) m1] assms(3) by (auto simp: entryAgrees_def)
  define f where "f = (if ty = VERTICAL then setPosition (centredCoord axis (axisExtent ty m1)) (getY m1)
                       else setPosition (getX m1) (centredCoord axis (axisExtent ty m1)))"
  have e: "axisExtent ty m2 = axisExtent ty m1" using m2 by (simp add: axisExtent_def)
  have r1: "r1 = updateModule name f t1"
    using assms(1) m1 by (auto simp: centreSelfSymmetric_def Let_def f_def)
  have r2: "centreSelfSymmetric ty axis name t2 = Some (updateModule name f t2)"
    using m2 e by (auto simp: centreSelfSymmetric_def Let_def f_def)
  have "agree (insert name P) F (updateModule name f t1) (updateModule name f t2)"
    unfolding f_def using agree_setPosition[OF assms(2), of name] by (cases "ty = VERTICAL") simp_all
  then have "agree P F r1 (updateModule name f t2)"
    using r1 assms(3) by (simp add: insert_absorb)
  with r2 show ?thesis by blast
qed

lemma centreSelfSymmetric_frame:
  assumes "centreSelfSymmetric ty axis name t = Some r"
  shows "agree (- {name}) UNIV t r"
proof -
  obtain m where m: "map_of t name = Some m"
    using assms(1) by (auto simp: centreSelfSymmetric_def split: option.splits)
  have "r = updateModule name (if ty = VERTICAL then setPosition (centredCoord axis (axisExtent ty m)) (getY m)
                       else setPosition (getX m) (centredCoord axis (axisExtent ty m))) t"
    using assms(1) m by (auto simp: centreSelfSymmetric_def Let_def)
  then show ?thesis
    by (simp add: agree_after_update setPosition_def)
qed

lemma centreAll_agree:
  assumes "foldOption (centreSelfSymmetric ty axis) names t1 = Some r1"
    and "agree P F t1 t2" and "set names \<subseteq> P"
  shows "\<exists>r2. foldOption (centreSelfSymmetric ty axis) names t2 = Some r2 \<and> agree P F r1 r2"
  using assms
proof (induction names arbitrary: t1 t2)
  case Nil
  then show ?case by simp
next
  case (Cons name names)
  obtain ta where s1: "centreSelfSymmetric ty axis name t1 = Some ta"
    and rest: "foldOption (centreSelfSymmetric ty axis) names ta = Some r1"
    using Cons.prems(1) by (auto split: option.splits)
  obtain tb where s2: "centreSelfSymmetric ty axis name t2 = Some tb" and a: "agree P F ta tb"
    using centreSelfSymmetric_agree[OF s1 Cons.prems(2)] Cons.prems(3) by auto
  obtain r2 where "foldOption (centreSelfSymmetric ty axis) names tb = Some r2" "agree P F r1 r2"
    using Cons.IH[OF rest a] Cons.prems(3) by auto
  with s2 show ?case by auto
qed

lemma centreAll_frame:
  assumes "foldOption (centreSelfSymmetric ty axis) names t = Some r"
  shows "agree (- set names) UNIV t r"
  using assms
proof (induction names arbitrary: t)
  case Nil
  then show ?case by (simp add: agree_refl)
next
  case (Cons name names)
  obtain ta where s1: "centreSelfSymmetric ty axis name t = Some ta"
    and rest: "foldOption (centreSelfSymmetric ty axis) names ta = Some r"
    using Cons.prems(1) by (auto split: option.splits)
  define W where "W = set (name # names)"
  have a: "agree (- W) UNIV t ta"
    using agree_mono[OF centreSelfSymmetric_frame[OF s1], of "- W" UNIV] by (auto simp: W_def)
  have b: "agree (- W) UNIV ta r"
    using agree_mono[OF Cons.IH[OF rest], of "- W" UNIV] by (auto simp: W_def)
  show ?case using agree_trans[OF a b] by (simp add: W_def)
qed

section \<open>Packing a settled group twice\<close>

lemma calculateSymmetryAxisPosition_fixed:
  assumes "calculateSymmetryAxisPosition s = Some r"
  shows "calculateSymmetryAxisPosition r = Some r"
proof -
  obtain ax where ax: "computedAxis s = Some ax"
    and r: "r = s\<lparr>symmetryAxisPosition := ax, groupAxisPosition := ax\<rparr>"
    using assms by (auto simp: calculateSymmetryAxisPosition_def split: option.splits)
  have "computedAxis r = Some ax"
    using ax unfolding r computedAxis_def Let_def
    by (simp split: if_splits cong: option.case_cong)
  then show ?thesis
    unfolding r by (simp add: calculateSymmetryAxisPosition_def)
qed

text \<open>The pipeline after the packing pass, as a function of the packed state and the axis.\<close>

lemma pack_stages:
  assumes "packBStarTree hgt (s\<lparr>preorderTraversal := preorder (root s),
                                inorderTraversal := inorder (root s)\<rparr>) = Some a"
    and "computedAxis a = Some ax"
  shows "pack hgt s =
    (case foldOption (projectPair (symmetryType a) ax) (repToPairMap a) (modules a) of
       None \<Rightarrow> None
     | Some t \<Rightarrow>
         (case foldOption (centreSelfSymmetric (symmetryType a) ax) (selfSymmetricModules a) t of
            None \<Rightarrow> None
          | Some u \<Rightarrow>
              Some (validateSymmetry
                      (a\<lparr>symmetryAxisPosition := ax, groupAxisPosition := ax, modules := u\<rparr>),
                    a\<lparr>symmetryAxisPosition := ax, groupAxisPosition := ax, modules := u\<rparr>)))"
proof -
  define b where "b = a\<lparr>symmetryAxisPosition := ax, groupAxisPosition := ax\<rparr>"
  have c1: "calculateSymmetryAxisPosition a = Some b"
    using assms(2) by (simp add: calculateSymmetryAxisPosition_def b_def)
  have c2: "calculateSymmetryAxisPosition b = Some b"
    using calculateSymmetryAxisPosition_fixed[OF c1] .
  have u: "updateSymmetricModulePositions b =
    (case foldOption (projectPair (symmetryType a) ax) (repToPairMap a) (modules a) of
       None \<Rightarrow> None
     | Some t \<Rightarrow>
         (case foldOption (centreSelfSymmetric (symmetryType a) ax) (selfSymmetricModules a) t of
            None \<Rightarrow> None
          | Some u \<Rightarrow> Some (b\<lparr>modules := u\<rparr>)))"
    unfolding updateSymmetricModulePositions_def c2
    by (simp add: b_def cong: option.case_cong)
  show ?thesis
    unfolding pack_def Let_def assms(1) using c1 u
    by (simp add: b_def split: option.splits)
qed

text \<open>
  Claim C9, amended. On a settled group a second \<open>pack\<close> changes nothing: it returns the
  same boolean and leaves the state of the first call.
\<close>

theorem pack_idempotent_settled:
  assumes "pack hgt s = Some (b, s')" and "settledGroup s"
  shows "pack hgt s' = Some (b, s')"
proof -
  define s0 where "s0 = s\<lparr>preorderTraversal := preorder (root s),
                            inorderTraversal := inorder (root s)\<rparr>"
  define pre where "pre = set (preorder (root s))"
  define partners where "partners = snd ` set (repToPairMap s)"
  have st: "set (representativeModules s) \<subseteq> pre"
    "set (selfSymmetricModules s) \<subseteq> set (representativeModules s)"
    "fst ` set (repToPairMap s) \<subseteq> set (representativeModules s)"
    "partners \<inter> pre = {}"
    "list_all (noRotationNeeded (modules s)) (repToPairMap s)"
    using assms(2) by (simp_all add: settledGroup_def pre_def partners_def)
  obtain a1 where p1: "packBStarTree hgt s0 = Some a1"
    using assms(1) by (auto simp: pack_def Let_def s0_def split: option.splits)
  obtain ax where ax: "computedAxis a1 = Some ax"
    using assms(1) p1
    by (auto simp: pack_def Let_def s0_def calculateSymmetryAxisPosition_def split: option.splits)
  obtain c tbl1 where a1: "a1 = s0\<lparr>contourHead := c, modules := tbl1\<rparr>"
    and fr1: "agree (- (set (preorder (root s0)) \<union> set (representativeModules s0))) UNIV
                (modules s0) tbl1"
    using packBStarTree_frame[OF p1] by blast
  have f: "symmetryType a1 = symmetryType s" "repToPairMap a1 = repToPairMap s"
    "selfSymmetricModules a1 = selfSymmetricModules s" "modules a1 = tbl1"
    by (simp_all add: a1 s0_def)
  note stages1 = pack_stages[OF p1[unfolded s0_def] ax, unfolded f]
  obtain t where t: "foldOption (projectPair (symmetryType s) ax) (repToPairMap s) tbl1 = Some t"
    using assms(1) stages1 by (auto split: option.splits)
  obtain u where u: "foldOption (centreSelfSymmetric (symmetryType s) ax) (selfSymmetricModules s) t
                       = Some u"
    using assms(1) stages1 t by (auto split: option.splits)
  have s': "s' = a1\<lparr>symmetryAxisPosition := ax, groupAxisPosition := ax, modules := u\<rparr>"
    and b: "b = validateSymmetry s'"
    using assms(1) stages1 t u by auto

  txt \<open>What the first call has changed in the table.\<close>
  have g0: "agree (- pre) UNIV (modules s) tbl1"
    using agree_mono[OF fr1, of "- pre" UNIV] st(1) by (auto simp: s0_def pre_def)
  have nr1: "list_all (noRotationNeeded tbl1) (repToPairMap s)"
    using st(5) noRotationNeeded_agree[OF g0] by (simp add: list_all_iff)
  have g1: "agree (- partners) (- partners) tbl1 t"
    using projectPairs_frame[OF t nr1] by (simp add: partners_def)
  have g2: "agree (- pre) UNIV t u"
    using agree_mono[OF centreAll_frame[OF u], of "- pre" UNIV] st(1,2) by auto
  define P where "P = - (pre \<union> partners)"
  have g: "agree P (- partners) (modules s0) (modules s')"
  proof -
    have "agree P (- partners) (modules s) tbl1"
      using agree_mono[OF g0, of P "- partners"] by (auto simp: P_def)
    moreover have "agree P (- partners) tbl1 t"
      using agree_mono[OF g1, of P "- partners"] by (auto simp: P_def)
    moreover have "agree P (- partners) t u"
      using agree_mono[OF g2, of P "- partners"] by (auto simp: P_def)
    ultimately have "agree P (- partners) (modules s) u"
      using agree_trans by blast
    then show ?thesis by (simp add: s' s0_def)
  qed

  txt \<open>The second call starts from the state the first one has left.\<close>
  have same: "s'\<lparr>preorderTraversal := preorder (root s'), inorderTraversal := inorder (root s')\<rparr> = s'"
    by (simp add: s' a1 s0_def)
  have sg: "sameGroup s0 s'"
    by (simp add: sameGroup_def s' a1 s0_def)
  have sub: "set (representativeModules s0) \<subseteq> P \<union> set (preorder (root s0))"
    using st(1) by (auto simp: s0_def pre_def)
  obtain c' tbl1' tbl2 where a1': "a1 = s0\<lparr>contourHead := c', modules := tbl1'\<rparr>"
    and p2: "packBStarTree hgt s' = Some (s'\<lparr>contourHead := c', modules := tbl2\<rparr>)"
    and h: "agree (P \<union> set (preorder (root s0))) (- partners) tbl1' tbl2"
    using packBStarTree_agree[OF p1 sg g sub] by blast
  have eqs: "c' = c" "tbl1' = tbl1"
    using a1 a1' by (auto dest: arg_cong[where f = contourHead] arg_cong[where f = modules])
  define a2 where "a2 = s'\<lparr>contourHead := c, modules := tbl2\<rparr>"
  have p2': "packBStarTree hgt (s'\<lparr>preorderTraversal := preorder (root s'),
                                   inorderTraversal := inorder (root s')\<rparr>) = Some a2"
    unfolding same a2_def using p2 eqs by simp
  have h1: "agree (- partners) (- partners) tbl1 tbl2"
    using agree_mono[OF h, of "- partners" "- partners"] eqs by (auto simp: P_def s0_def pre_def)
  have reps: "set (representativeModules s) \<subseteq> - partners"
    using st(1,4) by auto
  have pairs: "fst ` set (repToPairMap s) \<subseteq> - partners"
    using st(3) reps by auto
  have axis0: "symmetryAxisPosition a1 = symmetryAxisPosition a2"
    if "repToPairMap s = []" and "selfSymmetricModules s = []"
    using ax that by (simp add: computedAxis_def Let_def f a2_def s')
  have ax2: "computedAxis a2 = Some ax"
  proof -
    have "computedAxis a1 = computedAxis a2"
    proof (rule computedAxis_agree[where P = "- partners" and F = "- partners"])
      show "sameGroup a1 a2" by (simp add: sameGroup_def a2_def s' a1)
      show "agree (- partners) (- partners) (modules a1) (modules a2)"
        using h1 by (simp add: a2_def a1)
      show "set (representativeModules a1) \<subseteq> - partners"
        using reps by (simp add: a1 s0_def)
      show "fst ` set (repToPairMap a1) \<subseteq> - partners"
        using pairs by (simp add: f)
      show "repToPairMap a1 = [] \<and> selfSymmetricModules a1 = []
              \<longrightarrow> symmetryAxisPosition a1 = symmetryAxisPosition a2"
        using axis0 by (simp add: f)
    qed
    then show ?thesis using ax by simp
  qed
  have f2: "symmetryType a2 = symmetryType s" "repToPairMap a2 = repToPairMap s"
    "selfSymmetricModules a2 = selfSymmetricModules s" "modules a2 = tbl2"
    by (simp_all add: a2_def s' a1 s0_def)
  note stages2 = pack_stages[OF p2' ax2, unfolded f2]
  obtain t2 where t2: "foldOption (projectPair (symmetryType s) ax) (repToPairMap s) tbl2 = Some t2"
    and h2: "agree (- partners \<union> snd ` set (repToPairMap s))
                   (- partners \<union> snd ` set (repToPairMap s)) t t2"
    using projectPairs_agree[OF t nr1 h1] pairs by auto
  have "t2 = t"
    using agree_all_eq[of t t2] h2 by (simp add: partners_def)
  then have t2': "foldOption (projectPair (symmetryType s) ax) (repToPairMap s) tbl2 = Some t"
    using t2 by simp
  have restored: "a2\<lparr>symmetryAxisPosition := ax, groupAxisPosition := ax, modules := u\<rparr> = s'"
    by (simp add: a2_def s' a1)
  show ?thesis
    using stages2 t2' u b by (simp add: restored)
qed

theorem pack_idempotent_settled_witness:
  "pack getContourHeight groupSelfRoot = Some (True, groupSelfRootPacked)
   \<and> settledGroup groupSelfRoot
   \<and> pack getContourHeight groupSelfRootPacked = Some (True, groupSelfRootPacked)"
proof -
  have "settledGroup groupSelfRoot"
    by (simp add: settledGroup_def groupSelfRoot_def group_eval noRotationNeeded_def
        needsRotation_def)
  then show ?thesis
    using pack_idempotent_settled[OF pack_groupSelfRoot] pack_groupSelfRoot by simp
qed

end
